theory Spec2Isabelle
  imports
    Complex_Main
    "HOL-Library.Product_Lexorder"
    "HOL-Library.List_Lexorder"
    "HOL-Library.Char_ord"
    "HOL-Library.Multiset"
begin

section \<open>Ambulance dispatch simulator: the two prototypes\<close>

text \<open>
  The development embeds \<^verbatim>\<open>prototype1.py\<close> (on-demand Dijkstra) and
  \<^verbatim>\<open>prototype2.py\<close> (precomputed Floyd-Warshall table) together with the
  dispatch loop the two files share.

  Conventions of the embedding:
  \<^item> Python floats are idealised as exact reals extended by \<open>+infinity\<close> (type \<open>dist\<close>);
    rounding of float addition and the display rounding \<^verbatim>\<open>round(t, 2)\<close> are not modelled.
  \<^item> A \<^verbatim>\<open>dict\<close> that is iterated is an association list in insertion order, looked up
    with \<open>map_of\<close>; a \<^verbatim>\<open>dict\<close> that is only indexed is a map. Indexing a missing key
    is the value \<open>Inl KeyError\<close>.
  \<^item> The Python \<^verbatim>\<open>set\<close> of vertices is a list without duplicates: its order is the
    (implementation-defined) iteration order, and every theorem holds for every order.
  \<^item> \<^verbatim>\<open>heapq\<close> is modelled by its contract: the heap is the list of its items,
    \<^verbatim>\<open>heappush\<close> adds an item and \<^verbatim>\<open>heappop\<close> removes and returns a least one.
  \<^item> A \<^verbatim>\<open>while\<close> loop that need not terminate is a \<open>partial_function\<close> in the
    option monad: \<open>None\<close> is "does not return".
\<close>

subsection \<open>Distances: reals with infinity\<close>

datatype dist = Fin real | Infty

instantiation dist :: "{linorder, comm_monoid_add}"
begin

fun less_eq_dist :: "dist \<Rightarrow> dist \<Rightarrow> bool" where
  "less_eq_dist _ Infty = True"
| "less_eq_dist Infty (Fin _) = False"
| "less_eq_dist (Fin a) (Fin b) = (a \<le> b)"

fun less_dist :: "dist \<Rightarrow> dist \<Rightarrow> bool" where
  "less_dist Infty _ = False"
| "less_dist (Fin _) Infty = True"
| "less_dist (Fin a) (Fin b) = (a < b)"

fun plus_dist :: "dist \<Rightarrow> dist \<Rightarrow> dist" where
  "plus_dist (Fin a) (Fin b) = Fin (a + b)"
| "plus_dist _ _ = Infty"

definition zero_dist :: dist where
  "zero_dist = Fin 0"

instance
proof
  fix x y z :: dist
  show "(x < y) = (x \<le> y \<and> \<not> y \<le> x)" by (cases x; cases y) auto
  show "x \<le> x" by (cases x) auto
  show "x \<le> y \<Longrightarrow> y \<le> z \<Longrightarrow> x \<le> z" by (cases x; cases y; cases z) auto
  show "x \<le> y \<Longrightarrow> y \<le> x \<Longrightarrow> x = y" by (cases x; cases y) auto
  show "x \<le> y \<or> y \<le> x" by (cases x; cases y) auto
  show "x + y + z = x + (y + z)" by (cases x; cases y; cases z) auto
  show "x + y = y + x" by (cases x; cases y) auto
  show "0 + x = x" by (cases x) (auto simp: zero_dist_def)
qed

end

instance dist :: ordered_comm_monoid_add
proof
  fix a b c :: dist
  show "a \<le> b \<Longrightarrow> c + a \<le> c + b" by (cases a; cases b; cases c) auto
qed

subsection \<open>Errors and the heap\<close>

datatype py_error = KeyError

text \<open>
  \<^verbatim>\<open>heapq.heappush(h, x)\<close> and \<^verbatim>\<open>heapq.heappop(h)\<close>. Items are Python tuples, compared
  lexicographically; \<open>key\<close> is the prefix of the tuple that decides the comparison:
  the whole pair \<open>(cost, node)\<close> in the path finder, and \<open>(priority, call_id)\<close> in the
  call queue, whose third component (the row, a \<^verbatim>\<open>dict\<close>) is reached by the
  comparison only when two calls share priority and id. Python cannot order two
  different rows and raises \<^verbatim>\<open>TypeError\<close> there; queues with such calls are outside
  the model (the ids of \<^verbatim>\<open>calls.csv\<close> are taken to be pairwise distinct).
  \<^verbatim>\<open>heappop\<close> on an empty heap is \<open>None\<close>; both loops test the heap first.
\<close>

definition heappush :: "'a list \<Rightarrow> 'a \<Rightarrow> 'a list" where
  "heappush h x = h @ [x]"

fun least_by :: "('a \<Rightarrow> 'k::linorder) \<Rightarrow> 'a \<Rightarrow> 'a list \<Rightarrow> 'a" where
  "least_by key m [] = m"
| "least_by key m (x # xs) = least_by key (if key x < key m then x else m) xs"

fun heappop :: "('a \<Rightarrow> 'k::linorder) \<Rightarrow> 'a list \<Rightarrow> ('a \<times> 'a list) option" where
  "heappop key [] = None"
| "heappop key (x # xs) = Some (least_by key x xs, remove1 (least_by key x xs) (x # xs))"

subsection \<open>Graph representation (both prototypes)\<close>

text \<open>
  \<^verbatim>\<open>class Graph\<close>: \<open>adjacency_list\<close> is the dict
  \<^verbatim>\<open>{source: [(destination, weight), ...]}\<close>, \<open>vertices\<close> the set of locations.
\<close>

record 'v graph =
  adjacency_list :: "('v \<times> ('v \<times> real) list) list"
  vertices :: "'v list"

definition empty_graph :: "'v graph" where
  "empty_graph = \<lparr>adjacency_list = [], vertices = []\<rparr>"

definition set_add :: "'v list \<Rightarrow> 'v \<Rightarrow> 'v list" where
  "set_add vs x = (if x \<in> set vs then vs else vs @ [x])"

definition add_edge :: "'v graph \<Rightarrow> 'v \<Rightarrow> 'v \<Rightarrow> real \<Rightarrow> 'v graph" where
  "add_edge g source destination weight =
     \<lparr>adjacency_list =
        map (\<lambda>(k, ns). if k = source then (k, ns @ [(destination, weight)]) else (k, ns))
          (if map_of (adjacency_list g) source = None
           then adjacency_list g @ [(source, [])]
           else adjacency_list g),
      vertices = set_add (set_add (vertices g) source) destination\<rparr>"

text \<open>
  \<^verbatim>\<open>load_network_data\<close> on the parsed rows \<open>(Start, End, Travel Time, Traffic Delay)\<close>;
  rows whose numbers do not parse are dropped by the reader and never reach the graph.
\<close>

definition load_network_data :: "('v \<times> 'v \<times> real \<times> real) list \<Rightarrow> 'v graph" where
  "load_network_data rows =
     fold (\<lambda>(source, destination, travel_time, traffic_delay) g.
             add_edge g source destination (travel_time + traffic_delay))
       rows empty_graph"

subsection \<open>Prototype 1: Dijkstra with a lazy-deletion frontier\<close>

type_synonym 'v frontier = "(dist \<times> 'v) list"

text \<open>The relaxation \<^verbatim>\<open>for neighbor, edge_weight in graph.adjacency_list[current_node]\<close>.\<close>

fun relax_neighbors ::
  "'v \<Rightarrow> ('v \<times> real) list \<Rightarrow> 'v frontier \<times> ('v \<rightharpoonup> dist)
     \<Rightarrow> py_error + 'v frontier \<times> ('v \<rightharpoonup> dist)" where
  "relax_neighbors current_node [] (pq, distances) = Inr (pq, distances)"
| "relax_neighbors current_node ((neighbor, edge_weight) # rest) (pq, distances) =
     (case distances current_node of
        None \<Rightarrow> Inl KeyError
      | Some dc \<Rightarrow>
         (case distances neighbor of
            None \<Rightarrow> Inl KeyError
          | Some dn \<Rightarrow>
              if dc + Fin edge_weight < dn
              then relax_neighbors current_node rest
                     (heappush pq (dc + Fin edge_weight, neighbor),
                      distances(neighbor \<mapsto> dc + Fin edge_weight))
              else relax_neighbors current_node rest (pq, distances)))"

text \<open>The loop \<^verbatim>\<open>while priority_queue\<close>.\<close>

partial_function (option) dijkstra_loop ::
  "'v::linorder graph \<Rightarrow> 'v \<Rightarrow> 'v frontier \<Rightarrow> ('v \<rightharpoonup> dist) \<Rightarrow> (py_error + dist) option" where
  "dijkstra_loop g end_node pq distances =
     (case heappop (\<lambda>item. item) pq of
        None \<Rightarrow> Some (Inr Infty)
      | Some ((current_cost, current_node), pq') \<Rightarrow>
          (case distances current_node of
             None \<Rightarrow> Some (Inl KeyError)
           | Some dc \<Rightarrow>
               if current_cost > dc then dijkstra_loop g end_node pq' distances
               else if current_node = end_node
               then (case distances end_node of
                       None \<Rightarrow> Some (Inl KeyError)
                     | Some d \<Rightarrow> Some (Inr d))
               else (case map_of (adjacency_list g) current_node of
                       None \<Rightarrow> dijkstra_loop g end_node pq' distances
                     | Some neighbors \<Rightarrow>
                         (case relax_neighbors current_node neighbors (pq', distances) of
                            Inl e \<Rightarrow> Some (Inl e)
                          | Inr (pq'', distances') \<Rightarrow>
                              dijkstra_loop g end_node pq'' distances'))))"

declare dijkstra_loop.simps [code]

definition dijkstra_shortest_path ::
  "'v::linorder graph \<Rightarrow> 'v \<Rightarrow> 'v \<Rightarrow> (py_error + dist) option" where
  "dijkstra_shortest_path g start_node end_node =
     dijkstra_loop g end_node [(Fin 0, start_node)]
       ((map_of (map (\<lambda>vertex. (vertex, Infty)) (vertices g)))(start_node \<mapsto> Fin 0))"

subsection \<open>Prototype 2: the Floyd-Warshall table\<close>

text \<open>\<^verbatim>\<open>dist_matrix\<close> is a dict of dicts; \<^verbatim>\<open>m[i][j]\<close> and \<^verbatim>\<open>m[i][j] = x\<close>.\<close>

type_synonym 'v matrix = "'v \<rightharpoonup> ('v \<rightharpoonup> dist)"

definition mat_get :: "'v matrix \<Rightarrow> 'v \<Rightarrow> 'v \<Rightarrow> py_error + dist" where
  "mat_get m i j =
     (case m i of
        None \<Rightarrow> Inl KeyError
      | Some row \<Rightarrow> (case row j of None \<Rightarrow> Inl KeyError | Some d \<Rightarrow> Inr d))"

definition mat_set :: "'v matrix \<Rightarrow> 'v \<Rightarrow> 'v \<Rightarrow> dist \<Rightarrow> py_error + 'v matrix" where
  "mat_set m i j x =
     (case m i of
        None \<Rightarrow> Inl KeyError
      | Some row \<Rightarrow> Inr (m(i \<mapsto> row(j \<mapsto> x))))"

definition init_matrix :: "'v list \<Rightarrow> 'v matrix" where
  "init_matrix vs = map_of (map (\<lambda>v. (v, map_of (map (\<lambda>u. (u, Infty)) vs))) vs)"

fun set_diagonal :: "'v list \<Rightarrow> 'v matrix \<Rightarrow> py_error + 'v matrix" where
  "set_diagonal [] m = Inr m"
| "set_diagonal (vertex # rest) m =
     (case mat_set m vertex vertex (Fin 0) of
        Inl e \<Rightarrow> Inl e
      | Inr m' \<Rightarrow> set_diagonal rest m')"

fun init_neighbors :: "'v \<Rightarrow> ('v \<times> real) list \<Rightarrow> 'v matrix \<Rightarrow> py_error + 'v matrix" where
  "init_neighbors source [] m = Inr m"
| "init_neighbors source ((destination, weight) # rest) m =
     (case mat_get m source destination of
        Inl e \<Rightarrow> Inl e
      | Inr d \<Rightarrow>
          if Fin weight < d
          then (case mat_set m source destination (Fin weight) of
                  Inl e \<Rightarrow> Inl e
                | Inr m' \<Rightarrow> init_neighbors source rest m')
          else init_neighbors source rest m)"

fun init_edges :: "('v \<times> ('v \<times> real) list) list \<Rightarrow> 'v matrix \<Rightarrow> py_error + 'v matrix" where
  "init_edges [] m = Inr m"
| "init_edges ((source, neighbors) # rest) m =
     (case init_neighbors source neighbors m of
        Inl e \<Rightarrow> Inl e
      | Inr m' \<Rightarrow> init_edges rest m')"

text \<open>The three nested loops \<^verbatim>\<open>for k\<close>, \<^verbatim>\<open>for i\<close>, \<^verbatim>\<open>for j\<close>, innermost first.\<close>

fun fw_j :: "'v \<Rightarrow> 'v \<Rightarrow> 'v list \<Rightarrow> 'v matrix \<Rightarrow> py_error + 'v matrix" where
  "fw_j k i [] m = Inr m"
| "fw_j k i (j # js) m =
     (case mat_get m i k of
        Inl e \<Rightarrow> Inl e
      | Inr dik \<Rightarrow>
         (case mat_get m k j of
            Inl e \<Rightarrow> Inl e
          | Inr dkj \<Rightarrow>
             (case mat_get m i j of
                Inl e \<Rightarrow> Inl e
              | Inr dij \<Rightarrow>
                  if dik + dkj < dij
                  then (case mat_set m i j (dik + dkj) of
                          Inl e \<Rightarrow> Inl e
                        | Inr m' \<Rightarrow> fw_j k i js m')
                  else fw_j k i js m)))"

fun fw_i :: "'v list \<Rightarrow> 'v \<Rightarrow> 'v list \<Rightarrow> 'v matrix \<Rightarrow> py_error + 'v matrix" where
  "fw_i vs k [] m = Inr m"
| "fw_i vs k (i # is) m =
     (case fw_j k i vs m of
        Inl e \<Rightarrow> Inl e
      | Inr m' \<Rightarrow> fw_i vs k is m')"

fun fw_k :: "'v list \<Rightarrow> 'v list \<Rightarrow> 'v matrix \<Rightarrow> py_error + 'v matrix" where
  "fw_k vs [] m = Inr m"
| "fw_k vs (k # ks) m =
     (case fw_i vs k vs m of
        Inl e \<Rightarrow> Inl e
      | Inr m' \<Rightarrow> fw_k vs ks m')"

definition floyd_warshall_precomputation :: "'v graph \<Rightarrow> py_error + 'v matrix" where
  "floyd_warshall_precomputation g =
     (case set_diagonal (vertices g) (init_matrix (vertices g)) of
        Inl e \<Rightarrow> Inl e
      | Inr m0 \<Rightarrow>
         (case init_edges (adjacency_list g) m0 of
            Inl e \<Rightarrow> Inl e
          | Inr m1 \<Rightarrow> fw_k (vertices g) (vertices g) m1))"

text \<open>The table entry \<^verbatim>\<open>floyd_warshall_precomputation(graph)[u][v]\<close>.\<close>

definition table_lookup :: "'v graph \<Rightarrow> 'v \<Rightarrow> 'v \<Rightarrow> py_error + dist" where
  "table_lookup g u v =
     (case floyd_warshall_precomputation g of
        Inl e \<Rightarrow> Inl e
      | Inr m \<Rightarrow> mat_get m u v)"

subsection \<open>The dispatch loop (both prototypes)\<close>

text \<open>
  A row of \<^verbatim>\<open>calls.csv\<close> with its id parsed, and the heap item
  \<^verbatim>\<open>(priority, call_id, row)\<close>.
\<close>

record 'v call_row =
  row_call_id :: int
  row_location :: 'v
  row_call_type :: string

type_synonym 'v call_item = "int \<times> int \<times> 'v call_row"

definition call_key :: "'v call_item \<Rightarrow> int \<times> int" where
  "call_key item = (fst item, fst (snd item))"

text \<open>\<^verbatim>\<open>call_priorities.get(call_type, 99)\<close> and the pushes that fill the queue.\<close>

definition get_priority :: "(string \<rightharpoonup> int) \<Rightarrow> string \<Rightarrow> int" where
  "get_priority call_priorities call_type =
     (case call_priorities call_type of None \<Rightarrow> 99 | Some p \<Rightarrow> p)"

definition call_item_of :: "(string \<rightharpoonup> int) \<Rightarrow> 'v call_row \<Rightarrow> 'v call_item" where
  "call_item_of call_priorities row =
     (get_priority call_priorities (row_call_type row), row_call_id row, row)"

definition prepare_call_queue :: "(string \<rightharpoonup> int) \<Rightarrow> 'v call_row list \<Rightarrow> 'v call_item list" where
  "prepare_call_queue call_priorities rows =
     fold (\<lambda>row call_queue. heappush call_queue (call_item_of call_priorities row)) rows []"

record 'v log_entry =
  log_call_id :: int
  log_call_type :: string
  log_call_location :: 'v
  log_selected_ambulance :: string
  log_time_to_call :: dist

text \<open>
  The state of the loop \<^verbatim>\<open>while call_queue\<close>: the three program variables, the
  warnings printed for unservable calls (call id and location), and \<open>dequeued\<close>, a
  history of the items popped so far (not a program variable; nothing reads it).
\<close>

record 'v sim_state =
  call_queue :: "'v call_item list"
  dispatch_log :: "'v log_entry list"
  available_ambulances :: "(string \<times> 'v) list"
  warnings :: "(int \<times> 'v) list"
  dequeued :: "'v call_item list"

text \<open>
  The travel-time query differs between the prototypes: a call of
  \<open>dijkstra_shortest_path\<close> (which may not return), or a table lookup (which may
  raise \<open>KeyError\<close>).
\<close>

type_synonym 'v path_query = "'v \<Rightarrow> 'v \<Rightarrow> (py_error + dist) option"

text \<open>The scan \<^verbatim>\<open>for ambulance_id, ambulance_location in available_ambulances.items()\<close>.\<close>

fun find_best ::
  "'v path_query \<Rightarrow> 'v \<Rightarrow> (string \<times> 'v) list \<Rightarrow> string option \<times> dist
     \<Rightarrow> (py_error + string option \<times> dist) option" where
  "find_best query call_location [] (best_ambulance, fastest_time) =
     Some (Inr (best_ambulance, fastest_time))"
| "find_best query call_location ((ambulance_id, ambulance_location) # rest)
       (best_ambulance, fastest_time) =
     (case query ambulance_location call_location of
        None \<Rightarrow> None
      | Some (Inl e) \<Rightarrow> Some (Inl e)
      | Some (Inr time_to_call) \<Rightarrow>
          if time_to_call < fastest_time
          then find_best query call_location rest (Some ambulance_id, time_to_call)
          else find_best query call_location rest (best_ambulance, fastest_time))"

text \<open>Python truth of \<^verbatim>\<open>best_ambulance\<close>: \<^verbatim>\<open>None\<close> and the empty string are false.\<close>

fun truthy :: "string option \<Rightarrow> bool" where
  "truthy None = False"
| "truthy (Some s) = (s \<noteq> [])"

text \<open>One iteration of the loop body, after the pop.\<close>

definition dispatch_call ::
  "'v path_query \<Rightarrow> 'v call_item \<Rightarrow> 'v sim_state \<Rightarrow> (py_error + 'v sim_state) option" where
  "dispatch_call query item st =
     (case item of (priority, call_id, call_details) \<Rightarrow>
        (case find_best query (row_location call_details) (available_ambulances st)
                (None, Infty) of
           None \<Rightarrow> None
         | Some (Inl e) \<Rightarrow> Some (Inl e)
         | Some (Inr (best_ambulance, fastest_time)) \<Rightarrow>
             if truthy best_ambulance
             then Some (Inr (st\<lparr>dispatch_log := dispatch_log st @
                    [\<lparr>log_call_id = call_id,
                      log_call_type = row_call_type call_details,
                      log_call_location = row_location call_details,
                      log_selected_ambulance = the best_ambulance,
                      log_time_to_call = fastest_time\<rparr>]\<rparr>))
             else Some (Inr (st\<lparr>warnings := warnings st @
                    [(call_id, row_location call_details)]\<rparr>))))"

function process_calls ::
  "'v path_query \<Rightarrow> 'v sim_state \<Rightarrow> (py_error + 'v sim_state) option" where
  "process_calls query st =
     (case heappop call_key (call_queue st) of
        None \<Rightarrow> Some (Inr st)
      | Some (item, call_queue') \<Rightarrow>
          (case dispatch_call query item
                  (st\<lparr>call_queue := call_queue', dequeued := dequeued st @ [item]\<rparr>) of
             None \<Rightarrow> None
           | Some (Inl e) \<Rightarrow> Some (Inl e)
           | Some (Inr st') \<Rightarrow> process_calls query st'))"
  by pat_completeness auto


lemma dispatch_call_queue:
  "dispatch_call query item st = Some (Inr st') \<Longrightarrow> call_queue st' = call_queue st"
  by (auto simp: dispatch_call_def split: prod.splits option.splits sum.splits if_splits)

lemma heappop_length:
  "heappop key h = Some (x, h') \<Longrightarrow> length h' < length h"
proof (cases h)
  case Nil
  assume "heappop key h = Some (x, h')"
  with Nil show ?thesis by simp
next
  case (Cons a as)
  assume "heappop key h = Some (x, h')"
  with Cons have h': "h' = remove1 x (a # as)" and x: "x = least_by key a as" by auto
  have "least_by key b bs \<in> set (b # bs)" for b bs
    by (induction bs arbitrary: b) auto
  with x have "x \<in> set (a # as)" by blast
  then have "length (remove1 x (a # as)) < length (a # as)"
    unfolding length_remove1 by (simp del: remove1.simps)
  with h' Cons show ?thesis by simp
qed

termination process_calls
proof (relation "measure (\<lambda>(query, st). length (call_queue st))", goal_cases)
  case 1
  show ?case by simp
next
  case (2 query st x2 item call_queue' x2a x2b)
  then show ?case
    by (auto dest!: dispatch_call_queue heappop_length)
qed

definition initial_state :: "'v call_item list \<Rightarrow> (string \<times> 'v) list \<Rightarrow> 'v sim_state" where
  "initial_state queue initial_ambulances =
     \<lparr>call_queue = queue, dispatch_log = [], available_ambulances = initial_ambulances,
      warnings = [], dequeued = []\<rparr>"

text \<open>
  \<^verbatim>\<open>run_simulation\<close> of prototype 1 and of prototype 2, from the parsed inputs to the
  state in which the loop ends.
\<close>

definition run_simulation_p1 ::
  "'v::linorder graph \<Rightarrow> (string \<rightharpoonup> int) \<Rightarrow> (string \<times> 'v) list \<Rightarrow> 'v call_row list
     \<Rightarrow> (py_error + 'v sim_state) option" where
  "run_simulation_p1 g call_priorities initial_ambulances rows =
     process_calls (dijkstra_shortest_path g)
       (initial_state (prepare_call_queue call_priorities rows) initial_ambulances)"

definition run_simulation_p2 ::
  "'v graph \<Rightarrow> (string \<rightharpoonup> int) \<Rightarrow> (string \<times> 'v) list \<Rightarrow> 'v call_row list
     \<Rightarrow> (py_error + 'v sim_state) option" where
  "run_simulation_p2 g call_priorities initial_ambulances rows =
     (case floyd_warshall_precomputation g of
        Inl e \<Rightarrow> Some (Inl e)
      | Inr path_matrix \<Rightarrow>
          process_calls (\<lambda>ambulance_location call_location.
                           Some (mat_get path_matrix ambulance_location call_location))
            (initial_state (prepare_call_queue call_priorities rows) initial_ambulances))"

subsection \<open>Notions used to state the properties\<close>

text \<open>
  A vehicle's travel time to a call is at least (more than) \<open>t\<close>; the vehicle
  \<open>ambulance_id\<close> is the first in the fleet's iteration order whose travel time \<open>t\<close> is
  minimal over the whole fleet.
\<close>

definition travel_at_least :: "'v path_query \<Rightarrow> 'v \<Rightarrow> dist \<Rightarrow> string \<times> 'v \<Rightarrow> bool" where
  "travel_at_least query call_location t vehicle =
     (case query (snd vehicle) call_location of Some (Inr d) \<Rightarrow> t \<le> d | _ \<Rightarrow> False)"

definition travel_more_than :: "'v path_query \<Rightarrow> 'v \<Rightarrow> dist \<Rightarrow> string \<times> 'v \<Rightarrow> bool" where
  "travel_more_than query call_location t vehicle =
     (case query (snd vehicle) call_location of Some (Inr d) \<Rightarrow> t < d | _ \<Rightarrow> False)"

definition first_minimal ::
  "'v path_query \<Rightarrow> 'v \<Rightarrow> (string \<times> 'v) list \<Rightarrow> string \<Rightarrow> dist \<Rightarrow> bool" where
  "first_minimal query call_location fleet ambulance_id t \<longleftrightarrow>
     (\<exists>i<length fleet.
        fst (fleet ! i) = ambulance_id \<and>
        query (snd (fleet ! i)) call_location = Some (Inr t) \<and>
        (\<forall>vehicle\<in>set (take i fleet). travel_more_than query call_location t vehicle) \<and>
        (\<forall>vehicle\<in>set fleet. travel_at_least query call_location t vehicle))"

text \<open>
  The record the loop body writes for a call when it scans \<open>fleet\<close>, if it writes one.
\<close>

definition decide ::
  "'v path_query \<Rightarrow> (string \<times> 'v) list \<Rightarrow> 'v call_item \<Rightarrow> 'v log_entry option" where
  "decide query fleet item =
     (case item of (priority, call_id, call_details) \<Rightarrow>
        (case find_best query (row_location call_details) fleet (None, Infty) of
           Some (Inr (best_ambulance, fastest_time)) \<Rightarrow>
             if truthy best_ambulance
             then Some \<lparr>log_call_id = call_id,
                        log_call_type = row_call_type call_details,
                        log_call_location = row_location call_details,
                        log_selected_ambulance = the best_ambulance,
                        log_time_to_call = fastest_time\<rparr>
             else None
         | _ \<Rightarrow> None))"

subsection \<open>Walks and shortest distances\<close>

text \<open>
  The graphs that \<open>add_edge\<close> builds are well formed: the keys of the adjacency dict are
  distinct, and every endpoint of an edge is in the vertex set. A walk is a list of edges
  \<open>(source, destination, weight)\<close>, each starting where the one before ends; \<open>d\<close> is the
  shortest distance from \<open>u\<close> to \<open>v\<close> when no walk from \<open>u\<close> to \<open>v\<close> is lighter than \<open>d\<close>
  and \<open>d\<close> is the weight of such a walk, or infinite.
\<close>

definition has_edge :: "'v graph \<Rightarrow> 'v \<Rightarrow> 'v \<Rightarrow> real \<Rightarrow> bool" where
  "has_edge g u v w =
     (case map_of (adjacency_list g) u of None \<Rightarrow> False | Some ns \<Rightarrow> (v, w) \<in> set ns)"

fun is_walk :: "'v graph \<Rightarrow> 'v \<Rightarrow> ('v \<times> 'v \<times> real) list \<Rightarrow> 'v \<Rightarrow> bool" where
  "is_walk g u [] v = (u = v)"
| "is_walk g u ((a, b, w) # es) v = (a = u \<and> has_edge g a b w \<and> is_walk g b es v)"

definition walk_weight :: "('v \<times> 'v \<times> real) list \<Rightarrow> real" where
  "walk_weight es = sum_list (map (\<lambda>(a, b, w). w) es)"

definition reachable :: "'v graph \<Rightarrow> 'v \<Rightarrow> 'v \<Rightarrow> bool" where
  "reachable g u v \<longleftrightarrow> (\<exists>es. is_walk g u es v)"

definition is_shortest_distance :: "'v graph \<Rightarrow> 'v \<Rightarrow> 'v \<Rightarrow> dist \<Rightarrow> bool" where
  "is_shortest_distance g u v d \<longleftrightarrow>
     (d = Infty \<or> (\<exists>es. is_walk g u es v \<and> d = Fin (walk_weight es))) \<and>
     (\<forall>es. is_walk g u es v \<longrightarrow> d \<le> Fin (walk_weight es))"

definition wf_graph :: "'v graph \<Rightarrow> bool" where
  "wf_graph g \<longleftrightarrow>
     distinct (map fst (adjacency_list g)) \<and> distinct (vertices g) \<and>
     (\<forall>(source, neighbors)\<in>set (adjacency_list g).
        source \<in> set (vertices g) \<and>
        (\<forall>(destination, weight)\<in>set neighbors. destination \<in> set (vertices g)))"

definition nonneg_weights :: "'v graph \<Rightarrow> bool" where
  "nonneg_weights g \<longleftrightarrow>
     (\<forall>(source, neighbors)\<in>set (adjacency_list g).
        \<forall>(destination, weight)\<in>set neighbors. 0 \<le> weight)"

text \<open>
  The invariant of the loop of \<open>dijkstra_shortest_path\<close> from \<open>s\<close> to \<open>t\<close>: every finite
  entry of \<open>distances\<close> is the weight of a walk from \<open>s\<close>; every item \<open>(c, v)\<close> of the
  frontier has \<open>distances[v] \<le> c\<close>; a vertex with a finite distance whose item
  \<open>(distances[v], v)\<close> has left the frontier has all its edges relaxed and is no farther
  than any item of the frontier; the item of the target has not left the frontier.
  \<open>relaxed\<close> relates the state before the relaxation of the edges \<open>ns\<close> of \<open>u\<close> to the state
  after it, and \<open>open_nodes\<close> are the vertices not yet settled.
\<close>

definition pq_ok :: "'v frontier \<Rightarrow> ('v \<rightharpoonup> dist) \<Rightarrow> bool" where
  "pq_ok pq d \<longleftrightarrow>
     distinct pq \<and> (\<forall>x v. (x, v) \<in> set pq \<longrightarrow> (\<exists>a dv. x = Fin a \<and> d v = Some dv \<and> dv \<le> x))"

definition relaxed ::
  "'v \<Rightarrow> real \<Rightarrow> ('v \<times> real) list \<Rightarrow> 'v frontier \<Rightarrow> ('v \<rightharpoonup> dist)
     \<Rightarrow> 'v frontier \<Rightarrow> ('v \<rightharpoonup> dist) \<Rightarrow> bool" where
  "relaxed u c ns pq d pq' d' \<longleftrightarrow>
     dom d' = dom d \<and> d' u = Some (Fin c) \<and> pq_ok pq' d' \<and> set pq \<subseteq> set pq' \<and>
     (\<forall>v. d' v = d v \<or>
          (\<exists>w dv. (v, w) \<in> set ns \<and> d' v = Some (Fin (c + w)) \<and> d v = Some dv \<and>
                  Fin (c + w) < dv \<and> (Fin (c + w), v) \<in> set pq')) \<and>
     (\<forall>x v. (x, v) \<in> set pq' \<longrightarrow> (x, v) \<notin> set pq \<longrightarrow>
          (\<exists>w dv. (v, w) \<in> set ns \<and> x = Fin (c + w) \<and> d v = Some dv \<and> x < dv)) \<and>
     (\<forall>y w. (y, w) \<in> set ns \<longrightarrow> (\<exists>dy. d' y = Some dy \<and> dy \<le> Fin (c + w)))"

definition dijkstra_inv ::
  "'v graph \<Rightarrow> 'v \<Rightarrow> 'v \<Rightarrow> 'v frontier \<Rightarrow> ('v \<rightharpoonup> dist) \<Rightarrow> bool" where
  "dijkstra_inv g s t pq d \<longleftrightarrow>
     dom d = set (vertices g) \<union> {s} \<and>
     d s = Some (Fin 0) \<and>
     (\<forall>v x. d v = Some (Fin x) \<longrightarrow> (\<exists>es. is_walk g s es v \<and> walk_weight es = x)) \<and>
     pq_ok pq d \<and>
     (\<forall>v x. d v = Some (Fin x) \<longrightarrow> (Fin x, v) \<notin> set pq \<longrightarrow>
        (\<forall>y w. has_edge g v y w \<longrightarrow> (\<exists>dy. d y = Some dy \<and> dy \<le> Fin (x + w))) \<and>
        (\<forall>c u. (c, u) \<in> set pq \<longrightarrow> Fin x \<le> c)) \<and>
     (\<forall>x. d t = Some (Fin x) \<longrightarrow> (Fin x, t) \<in> set pq)"

definition open_nodes :: "'v frontier \<Rightarrow> ('v \<rightharpoonup> dist) \<Rightarrow> 'v set" where
  "open_nodes pq d = {v. \<exists>dv. d v = Some dv \<and> (dv = Infty \<or> (dv, v) \<in> set pq)}"

text \<open>
  For the table: \<open>entry\<close> reads a matrix as a total function, \<open>full_on V\<close> says that the
  dict of dicts has exactly the rows and columns \<open>V\<close>. \<open>via k D P\<close> is the table \<open>D\<close> after
  the pairs \<open>P\<close> have been relaxed through \<open>k\<close>. The invariant of the outer loop, after
  the intermediate vertices \<open>K\<close>: every entry is non-negative, is infinite or the weight
  of a walk whose inner vertices lie in \<open>K\<close>, and is no more than the weight of any such
  walk. \<open>set_weight\<close> replaces the weight of the \<open>n\<close>-th edge leaving \<open>source\<close>.
\<close>

definition entry :: "'v matrix \<Rightarrow> 'v \<Rightarrow> 'v \<Rightarrow> dist" where
  "entry m i j = (case mat_get m i j of Inr d \<Rightarrow> d | Inl e \<Rightarrow> Infty)"

definition full_on :: "'v set \<Rightarrow> 'v matrix \<Rightarrow> bool" where
  "full_on V m \<longleftrightarrow> dom m = V \<and> (\<forall>i\<in>V. \<exists>row. m i = Some row \<and> dom row = V)"

definition via :: "'v \<Rightarrow> ('v \<Rightarrow> 'v \<Rightarrow> dist) \<Rightarrow> ('v \<times> 'v) set \<Rightarrow> 'v \<Rightarrow> 'v \<Rightarrow> dist" where
  "via k D P = (\<lambda>i j. if (i, j) \<in> P then min (D i j) (D i k + D k j) else D i j)"

definition inner :: "('v \<times> 'v \<times> real) list \<Rightarrow> 'v set" where
  "inner es = set (map fst (tl es))"

definition fw_inv :: "'v graph \<Rightarrow> 'v set \<Rightarrow> ('v \<Rightarrow> 'v \<Rightarrow> dist) \<Rightarrow> bool" where
  "fw_inv g K D \<longleftrightarrow>
     (\<forall>i\<in>set (vertices g). \<forall>j\<in>set (vertices g).
        Fin 0 \<le> D i j \<and>
        (D i j = Infty \<or>
           (\<exists>es. is_walk g i es j \<and> inner es \<subseteq> K \<and> D i j = Fin (walk_weight es))) \<and>
        (\<forall>es. is_walk g i es j \<longrightarrow> inner es \<subseteq> K \<longrightarrow> D i j \<le> Fin (walk_weight es)))"


subsection \<open>Example inputs\<close>

text \<open>
  A three-location network with routes A to B (4), A to C (10) and B to C (1), a fleet of
  two vehicles, and two calls of equal priority with ids 7 and 3; further a fleet whose
  only vehicle has the empty string as its id, and the final states of the runs.
\<close>

definition example_graph :: "string graph" where
  "example_graph =
     \<lparr>adjacency_list = [(''A'', [(''B'', 4), (''C'', 10)]), (''B'', [(''C'', 1)])],
      vertices = [''A'', ''B'', ''C'']\<rparr>"

definition example_fleet :: "(string \<times> string) list" where
  "example_fleet = [(''V1'', ''A''), (''V2'', ''C'')]"

definition example_priorities :: "string \<rightharpoonup> int" where
  "example_priorities = [''Cardiac'' \<mapsto> 1, ''Injury'' \<mapsto> 2]"

definition example_rows :: "string call_row list" where
  "example_rows =
     [\<lparr>row_call_id = 7, row_location = ''B'', row_call_type = ''Injury''\<rparr>,
      \<lparr>row_call_id = 3, row_location = ''C'', row_call_type = ''Injury''\<rparr>]"

definition example_final :: "string sim_state" where
  "example_final =
     \<lparr>call_queue = [],
      dispatch_log =
        [\<lparr>log_call_id = 3, log_call_type = ''Injury'', log_call_location = ''C'',
            log_selected_ambulance = ''V2'', log_time_to_call = Fin 0\<rparr>,
         \<lparr>log_call_id = 7, log_call_type = ''Injury'', log_call_location = ''B'',
            log_selected_ambulance = ''V1'', log_time_to_call = Fin 4\<rparr>],
      available_ambulances = example_fleet,
      warnings = [],
      dequeued =
        [(2, 3, \<lparr>row_call_id = 3, row_location = ''C'', row_call_type = ''Injury''\<rparr>),
         (2, 7, \<lparr>row_call_id = 7, row_location = ''B'', row_call_type = ''Injury''\<rparr>)]\<rparr>"



definition unnamed_fleet :: "(string \<times> string) list" where
  "unnamed_fleet = [('''', ''A'')]"

definition single_call :: "string call_row list" where
  "single_call = [\<lparr>row_call_id = 1, row_location = ''B'', row_call_type = ''Cardiac''\<rparr>]"

definition skipped_final :: "string sim_state" where
  "skipped_final =
     \<lparr>call_queue = [], dispatch_log = [], available_ambulances = unnamed_fleet,
      warnings = [(1, ''B'')],
      dequeued = [(1, 1, \<lparr>row_call_id = 1, row_location = ''B'', row_call_type = ''Cardiac''\<rparr>)]\<rparr>"


section \<open>Properties\<close>

subsection \<open>The heap and sorting\<close>

lemma least_by_mem: "least_by key m xs \<in> set (m # xs)"
  by (induction xs arbitrary: m) auto

lemma least_by_le: "\<forall>x\<in>set (m # xs). key (least_by key m xs) \<le> key x"
proof (induction xs arbitrary: m)
  case Nil
  then show ?case by simp
next
  case (Cons a xs)
  let ?m' = "if key a < key m then a else m"
  have le: "\<forall>y\<in>set (?m' # xs). key (least_by key ?m' xs) \<le> key y"
    by (rule Cons.IH)
  then have m': "key (least_by key ?m' xs) \<le> key ?m'" by simp
  have "key ?m' \<le> key m" "key ?m' \<le> key a" by auto
  with m' have "key (least_by key ?m' xs) \<le> key m" "key (least_by key ?m' xs) \<le> key a"
    by (blast intro: order_trans)+
  with le show ?case by simp
qed

lemma heappop_None: "heappop key h = None \<longleftrightarrow> h = []"
  by (cases h) auto

lemma heappop_Some:
  assumes "heappop key h = Some (x, h')"
  shows "x \<in> set h" and "\<forall>y\<in>set h. key x \<le> key y" and "h' = remove1 x h"
proof -
  from assms obtain a as where h: "h = a # as" by (cases h) auto
  with assms have x: "x = least_by key a as" and h': "h' = remove1 x (a # as)" by auto
  show "x \<in> set h" using least_by_mem[of key a as] x h by simp
  show "\<forall>y\<in>set h. key x \<le> key y" using least_by_le[of a as key] x h by blast
  show "h' = remove1 x h" using h' h by simp
qed

lemma filter_key_distinct:
  "distinct (map key zs) \<Longrightarrow> k \<in> set zs \<Longrightarrow> filter (\<lambda>x. key k = key x) zs = [k]"
proof (induction zs)
  case Nil then show ?case by simp
next
  case (Cons z zs)
  show ?case
  proof (cases "k = z")
    case True
    with Cons.prems have "\<forall>x\<in>set zs. key k \<noteq> key x" by auto
    then have "filter (\<lambda>x. key k = key x) zs = []" by (simp add: filter_empty_conv)
    with True show ?thesis by simp
  next
    case False
    with Cons.prems have kz: "k \<in> set zs" by auto
    then have "key k \<in> key ` set zs" by simp
    with Cons.prems have "key k \<noteq> key z" by auto
    note kz this
    with Cons show ?thesis by simp
  qed
qed

lemma distinct_map_mset:
  assumes "mset ys = mset xs" "distinct (map key xs)"
  shows "distinct (map key ys)"
proof -
  from assms(1) have "mset (map key ys) = mset (map key xs)" by simp
  then show ?thesis using assms(2) by (metis mset_eq_imp_distinct_iff)
qed

lemma sort_key_distinct_unique:
  assumes "distinct (map key xs)" "mset ys = mset xs" "sorted (map key ys)"
  shows "sort_key key xs = ys"
proof (rule properties_for_sort_key)
  show "mset ys = mset xs" by fact
  show "sorted (map key ys)" by fact
  fix k assume k: "k \<in> set ys"
  have dys: "distinct (map key ys)" by (rule distinct_map_mset[OF assms(2,1)])
  from k assms(2) have kx: "k \<in> set xs" by (metis mset_eq_setD)
  show "filter (\<lambda>x. key k = key x) ys = filter (\<lambda>x. key k = key x) xs"
    using filter_key_distinct[OF dys k] filter_key_distinct[OF assms(1) kx] by simp
qed

lemma sort_key_least:
  assumes "distinct (map key xs)" "m \<in> set xs" "\<forall>x\<in>set xs. key m \<le> key x"
  shows "sort_key key xs = m # sort_key key (remove1 m xs)"
proof (rule sort_key_distinct_unique[OF assms(1)])
  show "mset (m # sort_key key (remove1 m xs)) = mset xs"
    using assms(2) by simp
  have "set (remove1 m xs) \<subseteq> set xs" by (rule set_remove1_subset)
  with assms(3) show "sorted (map key (m # sort_key key (remove1 m xs)))"
    by auto
qed

lemma distinct_map_remove1:
  "distinct (map key xs) \<Longrightarrow> distinct (map key (remove1 m xs))"
  unfolding distinct_map
  by (metis distinct_remove1 inj_on_subset set_remove1_subset)

subsection \<open>The scan of the fleet\<close>

lemma travel_at_least_mono:
  "travel_at_least q loc t' v \<Longrightarrow> t \<le> t' \<Longrightarrow> travel_at_least q loc t v"
  by (auto simp: travel_at_least_def split: option.splits sum.splits)

lemma travel_more_than_mono:
  "travel_more_than q loc t' v \<Longrightarrow> t \<le> t' \<Longrightarrow> travel_more_than q loc t v"
  by (auto simp: travel_more_than_def split: option.splits sum.splits)

lemma find_best_gen:
  assumes "find_best q loc fleet (b0, t0) = Some (Inr (b, t))"
  shows "(\<forall>v\<in>set fleet. travel_at_least q loc t v) \<and> t \<le> t0 \<and>
         ((b = b0 \<and> t = t0) \<or>
          (t < t0 \<and> (\<exists>pre aid aloc post. fleet = pre @ (aid, aloc) # post \<and> b = Some aid \<and>
               q aloc loc = Some (Inr t) \<and> (\<forall>v\<in>set pre. travel_more_than q loc t v))))"
  using assms
proof (induction fleet arbitrary: b0 t0)
  case Nil
  then show ?case by simp
next
  case (Cons v fleet)
  obtain aid aloc where v: "v = (aid, aloc)" by (cases v)
  from Cons.prems v obtain d where d: "q aloc loc = Some (Inr d)"
    by (auto split: option.splits sum.splits)
  show ?case
  proof (cases "d < t0")
    case True
    with Cons.prems v d have rec: "find_best q loc fleet (Some aid, d) = Some (Inr (b, t))"
      by simp
    note IH = Cons.IH[OF rec]
    from IH have rest: "\<forall>v\<in>set fleet. travel_at_least q loc t v" and td: "t \<le> d" by auto
    have hd_le: "travel_at_least q loc t v"
      using d td v by (simp add: travel_at_least_def)
    from td True have tt0: "t < t0" by simp
    from IH consider "b = Some aid" "t = d"
      | pre aid' aloc' post where "t < d" "fleet = pre @ (aid', aloc') # post" "b = Some aid'"
          "q aloc' loc = Some (Inr t)" "\<forall>v\<in>set pre. travel_more_than q loc t v"
      by blast
    then have "\<exists>pre aid' aloc' post. v # fleet = pre @ (aid', aloc') # post \<and> b = Some aid' \<and>
               q aloc' loc = Some (Inr t) \<and> (\<forall>v\<in>set pre. travel_more_than q loc t v)"
    proof cases
      case 1
      have "v # fleet = [] @ (aid, aloc) # fleet" using v by simp
      with 1 d show ?thesis by (metis empty_iff list.set(1))
    next
      case 2
      have hd_lt: "travel_more_than q loc t v"
        using d 2(1) v by (simp add: travel_more_than_def)
      have "v # fleet = (v # pre) @ (aid', aloc') # post" using 2(2) by simp
      moreover have "\<forall>x\<in>set (v # pre). travel_more_than q loc t x" using hd_lt 2(5) by simp
      ultimately show ?thesis using 2(3,4) by blast
    qed
    with rest hd_le tt0 show ?thesis by auto
  next
    case False
    with Cons.prems v d have rec: "find_best q loc fleet (b0, t0) = Some (Inr (b, t))"
      by simp
    note IH = Cons.IH[OF rec]
    from IH have rest: "\<forall>v\<in>set fleet. travel_at_least q loc t v" and tt0: "t \<le> t0" by auto
    from False tt0 have td: "t \<le> d" by simp
    have hd_le: "travel_at_least q loc t v"
      using d td v by (simp add: travel_at_least_def)
    from IH consider "b = b0" "t = t0"
      | pre aid' aloc' post where "t < t0" "fleet = pre @ (aid', aloc') # post" "b = Some aid'"
          "q aloc' loc = Some (Inr t)" "\<forall>v\<in>set pre. travel_more_than q loc t v"
      by blast
    then show ?thesis
    proof cases
      case 1
      with rest hd_le show ?thesis by simp
    next
      case 2
      from 2(1) False have "t < d" by simp
      then have hd_lt: "travel_more_than q loc t v"
        using d v by (simp add: travel_more_than_def)
      have "v # fleet = (v # pre) @ (aid', aloc') # post" using 2(2) by simp
      moreover have "\<forall>x\<in>set (v # pre). travel_more_than q loc t x" using hd_lt 2(5) by simp
      ultimately have "\<exists>pre aid' aloc' post. v # fleet = pre @ (aid', aloc') # post \<and>
          b = Some aid' \<and> q aloc' loc = Some (Inr t) \<and> (\<forall>v\<in>set pre. travel_more_than q loc t v)"
        using 2(3,4) by blast
      with rest hd_le tt0 2(1) show ?thesis by auto
    qed
  qed
qed

lemma find_best_Some:
  assumes "find_best q loc fleet (None, Infty) = Some (Inr (Some aid, t))"
  shows "first_minimal q loc fleet aid t" and "t < Infty"
proof -
  from find_best_gen[OF assms]
  have all: "\<forall>v\<in>set fleet. travel_at_least q loc t v"
    and "t < Infty \<and> (\<exists>pre aid' aloc post. fleet = pre @ (aid', aloc) # post \<and> Some aid = Some aid' \<and>
               q aloc loc = Some (Inr t) \<and> (\<forall>v\<in>set pre. travel_more_than q loc t v))"
    by auto
  then obtain pre aloc post where t: "t < Infty" and fl: "fleet = pre @ (aid, aloc) # post"
    and q: "q aloc loc = Some (Inr t)" and pre: "\<forall>v\<in>set pre. travel_more_than q loc t v"
    by auto
  show "t < Infty" by fact
  have "length pre < length fleet" "fleet ! length pre = (aid, aloc)" "take (length pre) fleet = pre"
    using fl by auto
  with q pre all show "first_minimal q loc fleet aid t"
    unfolding first_minimal_def by (intro exI[of _ "length pre"]) simp
qed

lemma find_best_None:
  assumes "find_best q loc fleet (None, Infty) = Some (Inr (None, t))"
  shows "t = Infty" and "\<forall>v\<in>set fleet. q (snd v) loc = Some (Inr Infty)"
proof -
  from find_best_gen[OF assms]
  have all: "\<forall>v\<in>set fleet. travel_at_least q loc t v" and t: "t = Infty" by auto
  show "t = Infty" by fact
  show "\<forall>v\<in>set fleet. q (snd v) loc = Some (Inr Infty)"
  proof
    fix v assume "v \<in> set fleet"
    with all t have "travel_at_least q loc Infty v" by simp
    then show "q (snd v) loc = Some (Inr Infty)"
      by (auto simp: travel_at_least_def split: option.splits sum.splits elim: less_eq_dist.elims)
  qed
qed

lemma prepare_call_queue_map:
  "prepare_call_queue prios rows = map (call_item_of prios) rows"
proof -
  have "fold (\<lambda>row call_queue. heappush call_queue (call_item_of prios row)) rows acc
        = acc @ map (call_item_of prios) rows" for acc
    by (induction rows arbitrary: acc) (auto simp: heappush_def)
  then show ?thesis by (simp add: prepare_call_queue_def)
qed

lemma dispatch_call_frame:
  assumes "dispatch_call query item st = Some (Inr st')"
  shows "call_queue st' = call_queue st" "available_ambulances st' = available_ambulances st"
    "dequeued st' = dequeued st"
  using assms
  by (auto simp: dispatch_call_def split: prod.splits option.splits sum.splits if_splits)


subsection \<open>The dispatch loop\<close>

declare process_calls.simps [simp del]

lemma dispatch_call_log:
  assumes "dispatch_call query item st = Some (Inr st')"
  shows "dispatch_log st' = dispatch_log st @
           (case decide query (available_ambulances st) item of None \<Rightarrow> [] | Some e \<Rightarrow> [e])"
  using assms
  by (auto simp: dispatch_call_def decide_def split: prod.splits option.splits sum.splits if_splits)

lemma process_calls_step:
  assumes "process_calls query st = Some (Inr st')" "call_queue st \<noteq> []"
  obtains item q' st1 where "heappop call_key (call_queue st) = Some (item, q')"
    "dispatch_call query item (st\<lparr>call_queue := q', dequeued := dequeued st @ [item]\<rparr>) = Some (Inr st1)"
    "process_calls query st1 = Some (Inr st')"
proof -
  from assms(2) obtain item q' where hp: "heappop call_key (call_queue st) = Some (item, q')"
    by (cases "call_queue st") auto
  with assms(1) show ?thesis
    by (subst (asm) process_calls.simps) (auto split: option.splits sum.splits intro: that)
qed

lemma process_calls_empty:
  "call_queue st = [] \<Longrightarrow> process_calls query st = Some (Inr st)"
  by (subst process_calls.simps) simp

lemma process_calls_run:
  assumes "process_calls query st = Some (Inr st')"
  shows "available_ambulances st' = available_ambulances st \<and>
         (\<exists>new. dequeued st' = dequeued st @ new \<and> mset new = mset (call_queue st) \<and>
            (distinct (map call_key (call_queue st)) \<longrightarrow> new = sort_key call_key (call_queue st)) \<and>
            dispatch_log st' = dispatch_log st @
               List.map_filter (decide query (available_ambulances st)) new)"
  using assms
proof (induction "length (call_queue st)" arbitrary: st)
  case 0
  then have "call_queue st = []" by simp
  with 0 process_calls_empty[of st query] show ?case by (simp add: List.map_filter_simps)
next
  case (Suc n)
  then have ne: "call_queue st \<noteq> []" by auto
  from process_calls_step[OF Suc.prems ne] obtain item q' st1 where
    hp: "heappop call_key (call_queue st) = Some (item, q')" and
    dc: "dispatch_call query item (st\<lparr>call_queue := q', dequeued := dequeued st @ [item]\<rparr>) = Some (Inr st1)" and
    rec: "process_calls query st1 = Some (Inr st')" by blast
  note pop = heappop_Some[OF hp]
  note fr = dispatch_call_frame[OF dc]
  from fr have q1: "call_queue st1 = q'" and a1: "available_ambulances st1 = available_ambulances st"
    and d1: "dequeued st1 = dequeued st @ [item]" by simp_all
  have l1: "dispatch_log st1 = dispatch_log st @
      (case decide query (available_ambulances st) item of None \<Rightarrow> [] | Some e \<Rightarrow> [e])"
    using dispatch_call_log[OF dc] by simp
  have len: "n = length (call_queue st1)"
    using Suc.hyps(2) pop(1,3) q1 by (simp add: length_remove1)
  from Suc.hyps(1)[OF len rec] a1 obtain new where
    av: "available_ambulances st' = available_ambulances st" and
    dq: "dequeued st' = dequeued st1 @ new" and ms: "mset new = mset (call_queue st1)" and
    so: "distinct (map call_key (call_queue st1)) \<longrightarrow> new = sort_key call_key (call_queue st1)" and
    lg: "dispatch_log st' = dispatch_log st1 @ List.map_filter (decide query (available_ambulances st)) new"
    by auto
  have "dequeued st' = dequeued st @ (item # new)" using dq d1 by simp
  moreover have "mset (item # new) = mset (call_queue st)"
    using ms q1 pop(1,3) by simp
  moreover have "distinct (map call_key (call_queue st)) \<longrightarrow> item # new = sort_key call_key (call_queue st)"
  proof
    assume dist: "distinct (map call_key (call_queue st))"
    then have "distinct (map call_key (call_queue st1))"
      using q1 pop(3) by (simp add: distinct_map_remove1)
    with so have "new = sort_key call_key (remove1 item (call_queue st))" using q1 pop(3) by simp
    with sort_key_least[OF dist pop(1,2)] show "item # new = sort_key call_key (call_queue st)"
      by simp
  qed
  moreover have "dispatch_log st' = dispatch_log st @
               List.map_filter (decide query (available_ambulances st)) (item # new)"
    using lg l1 by (simp add: List.map_filter_simps split: option.splits)
  ultimately show ?case using av by blast
qed


subsection \<open>The order of dispatch\<close>

lemma distinct_map_pair:
  "distinct (map f xs) \<Longrightarrow> distinct (map (\<lambda>x. (g x, f x)) xs)"
  by (induction xs) auto

lemma call_key_item: "call_key (call_item_of prios row) = (get_priority prios (row_call_type row), row_call_id row)"
  by (simp add: call_key_def call_item_of_def)

lemma queue_sorted_order:
  assumes "distinct (map row_call_id rows)" and "mset rows' = mset rows"
  shows "distinct (map call_key (prepare_call_queue prios rows'))"
    and "sort_key call_key (prepare_call_queue prios rows')
         = sort_key call_key (map (call_item_of prios) rows)"
proof -
  let ?item = "call_item_of prios"
  have d': "distinct (map row_call_id rows')" by (rule distinct_map_mset[OF assms(2,1)])
  have key: "map call_key (map ?item xs)
     = map (\<lambda>r. (get_priority prios (row_call_type r), row_call_id r)) xs" for xs :: "'a call_row list"
    by (simp add: call_key_item)
  show d1: "distinct (map call_key (prepare_call_queue prios rows'))"
    unfolding prepare_call_queue_map key by (rule distinct_map_pair[OF d'])
  have d2: "distinct (map call_key (map ?item rows))"
    unfolding key by (rule distinct_map_pair[OF assms(1)])
  have ms: "mset (sort_key call_key (prepare_call_queue prios rows')) = mset (map ?item rows)"
    using assms(2) by (simp add: prepare_call_queue_map)
  show "sort_key call_key (prepare_call_queue prios rows')
         = sort_key call_key (map ?item rows)"
    by (rule sort_key_distinct_unique[OF d2 ms, symmetric]) simp
qed

lemma initial_state_simps:
  "call_queue (initial_state q fl) = q" "dispatch_log (initial_state q fl) = []"
  "available_ambulances (initial_state q fl) = fl" "warnings (initial_state q fl) = []"
  "dequeued (initial_state q fl) = []"
  by (simp_all add: initial_state_def)

lemma run_dequeued:
  assumes "distinct (map row_call_id rows)" and "mset rows' = mset rows"
    and "process_calls query (initial_state (prepare_call_queue prios rows') fleet) = Some (Inr st')"
  shows "dequeued st' = sort_key call_key (map (call_item_of prios) rows)"
  using process_calls_run[OF assms(3)] queue_sorted_order[OF assms(1,2), of prios]
  by (auto simp: initial_state_simps)

subsection \<open>Runs on the example inputs\<close>

lemma example_graph_loaded:
  "load_network_data [(''A'', ''B'', 4, 0), (''A'', ''C'', 6, 4), (''B'', ''C'', 1, 0)] = example_graph"
  by (simp add: load_network_data_def add_edge_def empty_graph_def set_add_def example_graph_def)

lemmas example_defs = example_graph_def example_priorities_def example_fleet_def
  example_rows_def example_final_def

lemmas run_defs = initial_state_def prepare_call_queue_def heappush_def call_item_of_def
  get_priority_def process_calls.simps call_key_def dispatch_call_def


lemma example_run_p1_rev:
  "run_simulation_p1 example_graph example_priorities example_fleet (rev example_rows)
     = Some (Inr example_final)"
  by (simp add: run_simulation_p1_def example_defs run_defs
        dijkstra_shortest_path_def dijkstra_loop.simps)


lemma example_run_p2_rev:
  "run_simulation_p2 example_graph example_priorities example_fleet (rev example_rows)
     = Some (Inr example_final)"
  by (simp add: run_simulation_p2_def example_defs run_defs
        floyd_warshall_precomputation_def init_matrix_def mat_get_def mat_set_def)



text \<open>
  Claim C3. When calls with pairwise distinct ids are pushed onto the call queue in any
  order \<open>rows'\<close>, a run of either prototype that reaches the end of its loop has dequeued
  the calls in the order of \<open>(priority, call id)\<close>, ascending: the history \<open>dequeued\<close> of
  the final state is the input sorted by \<open>call_key\<close>, whatever the order of the pushes.
\<close>

theorem dispatch_order_sorted:
  assumes "distinct (map row_call_id rows)" and "mset rows' = mset rows"
  shows "(\<forall>st'. run_simulation_p1 g call_priorities fleet rows' = Some (Inr st') \<longrightarrow>
            dequeued st' = sort_key call_key (map (call_item_of call_priorities) rows)) \<and>
         (\<forall>st'. run_simulation_p2 g call_priorities fleet rows' = Some (Inr st') \<longrightarrow>
            dequeued st' = sort_key call_key (map (call_item_of call_priorities) rows))"
proof (intro conjI allI impI)
  fix st'
  assume "run_simulation_p1 g call_priorities fleet rows' = Some (Inr st')"
  then show "dequeued st' = sort_key call_key (map (call_item_of call_priorities) rows)"
    unfolding run_simulation_p1_def by (rule run_dequeued[OF assms])
next
  fix st'
  assume run: "run_simulation_p2 g call_priorities fleet rows' = Some (Inr st')"
  then obtain m where "floyd_warshall_precomputation g = Inr m"
    by (auto simp: run_simulation_p2_def split: sum.splits)
  with run show "dequeued st' = sort_key call_key (map (call_item_of call_priorities) rows)"
    unfolding run_simulation_p2_def by (simp add: run_dequeued[OF assms])
qed

theorem dispatch_order_sorted_witness:
  "distinct (map row_call_id example_rows) \<and>
   mset (rev example_rows) = mset example_rows \<and>
   run_simulation_p1 example_graph example_priorities example_fleet (rev example_rows)
     = Some (Inr example_final) \<and>
   run_simulation_p2 example_graph example_priorities example_fleet (rev example_rows)
     = Some (Inr example_final) \<and>
   dequeued example_final
     = sort_key call_key (map (call_item_of example_priorities) example_rows) \<and>
   map (\<lambda>item. fst (snd item)) (dequeued example_final) = [3, 7]"
proof -
  have d: "distinct (map row_call_id example_rows)" by (simp add: example_rows_def)
  have m: "mset (rev example_rows) = mset example_rows" by simp
  from dispatch_order_sorted[OF d m, of example_graph example_priorities example_fleet]
    example_run_p1_rev
  have "dequeued example_final
     = sort_key call_key (map (call_item_of example_priorities) example_rows)" by simp
  moreover have "map (\<lambda>item. fst (snd item)) (dequeued example_final) = [3, 7]"
    by (simp add: example_final_def)
  ultimately show ?thesis using d m example_run_p1_rev example_run_p2_rev by simp
qed

subsection \<open>The selected vehicle\<close>








subsection \<open>The fleet snapshot\<close>



subsection \<open>Calls that are skipped\<close>

text \<open>
  Claim C2. A record is appended for a call if and only if some vehicle has a finite
  travel time to it. The loop tests \<^verbatim>\<open>if best_ambulance:\<close>, the truth value of the
  selected id, so a vehicle whose id is the empty string is never dispatched: on the
  example network the vehicle at A is 4 away from the call at B, in both prototypes, and
  the call is still reported as having no route and gets no record.
\<close>

theorem unnamed_vehicle_call_skipped:
  "dijkstra_shortest_path example_graph ''A'' ''B'' = Some (Inr (Fin 4)) \<and>
   table_lookup example_graph ''A'' ''B'' = Inr (Fin 4) \<and>
   run_simulation_p1 example_graph example_priorities unnamed_fleet single_call
     = Some (Inr skipped_final) \<and>
   run_simulation_p2 example_graph example_priorities unnamed_fleet single_call
     = Some (Inr skipped_final) \<and>
   dispatch_log skipped_final = []"
  by (simp add: run_simulation_p1_def run_simulation_p2_def example_defs run_defs
        unnamed_fleet_def single_call_def skipped_final_def table_lookup_def
        dijkstra_shortest_path_def dijkstra_loop.simps
        floyd_warshall_precomputation_def init_matrix_def mat_get_def mat_set_def)

text \<open>
  A call at a location that is not in the network ends the run of prototype 2 with
  \<open>KeyError\<close>; prototype 1 reports it as unservable and goes on.
\<close>

lemma unknown_location_p2_raises:
  "run_simulation_p2 example_graph example_priorities example_fleet
     [\<lparr>row_call_id = 1, row_location = ''Z'', row_call_type = ''Cardiac''\<rparr>,
      \<lparr>row_call_id = 2, row_location = ''B'', row_call_type = ''Injury''\<rparr>]
     = Some (Inl KeyError)"
  by (simp add: run_simulation_p2_def example_defs run_defs
        floyd_warshall_precomputation_def init_matrix_def mat_get_def mat_set_def)

subsection \<open>Correctness of the path finder\<close>

lemma dist_simps [simp]:
  "Fin a \<le> Fin b \<longleftrightarrow> a \<le> b" "Fin a < Fin b \<longleftrightarrow> a < b" "x \<le> Infty" "\<not> Infty < x"
  "Fin a < Infty" "\<not> Infty \<le> Fin a" "Fin a + Fin b = Fin (a + b)" "Infty + x = Infty"
  "x + Infty = Infty"
  by (cases x; simp)+

lemma has_edgeD:
  assumes "has_edge g u v w"
  obtains ns where "map_of (adjacency_list g) u = Some ns" "(v, w) \<in> set ns"
  using assms by (auto simp: has_edge_def split: option.splits)

lemma has_edge_vertices:
  assumes "wf_graph g" "has_edge g u v w"
  shows "u \<in> set (vertices g)" "v \<in> set (vertices g)"
proof -
  from assms(2) obtain ns where ns: "map_of (adjacency_list g) u = Some ns" "(v, w) \<in> set ns"
    by (rule has_edgeD)
  then have "(u, ns) \<in> set (adjacency_list g)" by (auto dest: map_of_SomeD)
  with assms(1) ns(2) show "u \<in> set (vertices g)" "v \<in> set (vertices g)"
    by (auto simp: wf_graph_def)
qed

lemma has_edge_nonneg:
  assumes "nonneg_weights g" "has_edge g u v w"
  shows "0 \<le> w"
proof -
  from assms(2) obtain ns where ns: "map_of (adjacency_list g) u = Some ns" "(v, w) \<in> set ns"
    by (rule has_edgeD)
  then have "(u, ns) \<in> set (adjacency_list g)" by (auto dest: map_of_SomeD)
  with assms(1) ns(2) show ?thesis by (auto simp: nonneg_weights_def)
qed

lemma is_walk_append:
  "is_walk g u (es1 @ es2) v \<longleftrightarrow> (\<exists>x. is_walk g u es1 x \<and> is_walk g x es2 v)"
  by (induction es1 arbitrary: u) auto

lemma is_walk_snoc:
  "is_walk g u (es @ [(x, y, w)]) v \<longleftrightarrow> is_walk g u es x \<and> has_edge g x y w \<and> y = v"
  by (auto simp: is_walk_append)

lemma walk_weight_simps [simp]:
  "walk_weight [] = 0" "walk_weight ((a, b, w) # es) = w + walk_weight es"
  "walk_weight (es1 @ es2) = walk_weight es1 + walk_weight es2"
  by (simp_all add: walk_weight_def)

lemma walk_weight_nonneg:
  "nonneg_weights g \<Longrightarrow> is_walk g u es v \<Longrightarrow> 0 \<le> walk_weight es"
proof (induction es arbitrary: u)
  case Nil
  then show ?case by simp
next
  case (Cons e es)
  obtain a b w where e: "e = (a, b, w)" by (cases e)
  with Cons.prems have "has_edge g a b w" "is_walk g b es v" by auto
  with Cons.IH[of b] Cons.prems(1) has_edge_nonneg[of g a b w] e show ?case by simp
qed

lemma is_walk_vertex:
  "wf_graph g \<Longrightarrow> is_walk g u es v \<Longrightarrow> v = u \<or> v \<in> set (vertices g)"
proof (induction es arbitrary: u)
  case Nil
  then show ?case by simp
next
  case (Cons e es)
  obtain a b w where e: "e = (a, b, w)" by (cases e)
  with Cons.prems have "has_edge g a b w" "is_walk g b es v" by auto
  with Cons.IH[of b] Cons.prems(1) has_edge_vertices(2)[of g a b w] show ?case by auto
qed



lemma relaxed_le:
  assumes "relaxed u c ns pq d pq' d'" "d v = Some dv"
  obtains dv' where "d' v = Some dv'" "dv' \<le> dv"
  using assms unfolding relaxed_def
  by (metis less_imp_le option.inject order_refl)

lemma relax_neighbors_relaxed:
  assumes "d u = Some (Fin c)" "pq_ok pq d"
    and "\<forall>y w. (y, w) \<in> set ns \<longrightarrow> y \<in> dom d \<and> 0 \<le> w"
  shows "\<exists>pq' d'. relax_neighbors u ns (pq, d) = Inr (pq', d') \<and> relaxed u c ns pq d pq' d'"
  using assms
proof (induction ns arbitrary: pq d)
  case Nil
  then show ?case by (simp add: relaxed_def)
next
  case (Cons e ns)
  obtain y w where e: "e = (y, w)" by (cases e)
  from Cons.prems(3) e obtain dy where dy: "d y = Some dy" and w: "0 \<le> w" by auto
  from Cons.prems(3) have rest: "\<forall>y w. (y, w) \<in> set ns \<longrightarrow> y \<in> dom d \<and> 0 \<le> w" by auto
  show ?case
  proof (cases "Fin (c + w) < dy")
    case False
    from Cons.IH[OF Cons.prems(1,2) rest] obtain pq' d' where
      r: "relax_neighbors u ns (pq, d) = Inr (pq', d')" and rel: "relaxed u c ns pq d pq' d'"
      by blast
    from False r dy Cons.prems(1) e
    have run: "relax_neighbors u (e # ns) (pq, d) = Inr (pq', d')" by simp
    from relaxed_le[OF rel dy] obtain dy' where dy': "d' y = Some dy'" "dy' \<le> dy" by blast
    with False have "dy' \<le> Fin (c + w)" by (meson leI order_trans)
    with rel dy' e have "relaxed u c (e # ns) pq d pq' d'"
      unfolding relaxed_def by (auto; blast)
    with run show ?thesis by blast
  next
    case True
    let ?n = "Fin (c + w)"
    let ?pq1 = "heappush pq (?n, y)"
    let ?d1 = "d(y \<mapsto> ?n)"
    from True Cons.prems(1) dy w have yu: "y \<noteq> u" by auto
    then have d1u: "?d1 u = Some (Fin c)" using Cons.prems(1) by simp
    have notin: "(?n, y) \<notin> set pq"
    proof
      assume "(?n, y) \<in> set pq"
      with Cons.prems(2) dy have "dy \<le> ?n" unfolding pq_ok_def by (metis option.inject)
      with True show False by simp
    qed
    have ok1: "pq_ok ?pq1 ?d1"
      unfolding pq_ok_def heappush_def
    proof (intro conjI allI impI)
      show "distinct (pq @ [(?n, y)])" using Cons.prems(2) notin by (simp add: pq_ok_def)
      fix x v assume "(x, v) \<in> set (pq @ [(?n, y)])"
      then consider "(x, v) \<in> set pq" | "x = ?n" "v = y" by auto
      then show "\<exists>a dv. x = Fin a \<and> ?d1 v = Some dv \<and> dv \<le> x"
      proof cases
        case 1
        with Cons.prems(2) obtain a dv where a: "x = Fin a" "d v = Some dv" "dv \<le> x"
          unfolding pq_ok_def by blast
        show ?thesis
        proof (cases "v = y")
          case True
          with a dy have "dy \<le> x" by simp
          with \<open>?n < dy\<close> have "?n \<le> x" by (meson less_imp_le order_trans)
          with True a show ?thesis by simp
        next
          case False
          with a show ?thesis by simp
        qed
      next
        case 2
        then show ?thesis by simp
      qed
    qed
    have rest1: "\<forall>y' w'. (y', w') \<in> set ns \<longrightarrow> y' \<in> dom ?d1 \<and> 0 \<le> w'" using rest by auto
    from Cons.IH[OF d1u ok1 rest1] obtain pq' d' where
      r: "relax_neighbors u ns (?pq1, ?d1) = Inr (pq', d')" and rel: "relaxed u c ns ?pq1 ?d1 pq' d'"
      by blast
    from True r dy Cons.prems(1) e
    have run: "relax_neighbors u (e # ns) (pq, d) = Inr (pq', d')" by simp
    have dom: "dom d' = dom d" using rel dy by (auto simp: relaxed_def)
    have du: "d' u = Some (Fin c)" using rel by (simp add: relaxed_def)
    have ok: "pq_ok pq' d'" using rel by (simp add: relaxed_def)
    have sub1: "set ?pq1 \<subseteq> set pq'" using rel by (simp add: relaxed_def)
    then have sub: "set pq \<subseteq> set pq'" and ny: "(?n, y) \<in> set pq'" by (auto simp: heappush_def)
    have ch1: "d' v = ?d1 v \<or>
          (\<exists>w' dv. (v, w') \<in> set ns \<and> d' v = Some (Fin (c + w')) \<and> ?d1 v = Some dv \<and>
                  Fin (c + w') < dv \<and> (Fin (c + w'), v) \<in> set pq')" for v
      using rel unfolding relaxed_def by blast
    have ch: "d' v = d v \<or>
          (\<exists>w' dv. (v, w') \<in> set (e # ns) \<and> d' v = Some (Fin (c + w')) \<and> d v = Some dv \<and>
                  Fin (c + w') < dv \<and> (Fin (c + w'), v) \<in> set pq')" for v
    proof (cases "v = y")
      case False
      with ch1[of v] show ?thesis by auto
    next
      case vy: True
      from ch1[of y] show ?thesis
      proof
        assume "d' y = ?d1 y"
        then have "d' y = Some ?n" by simp
        with vy e dy True ny show ?thesis by auto
      next
        assume "\<exists>w' dv. (y, w') \<in> set ns \<and> d' y = Some (Fin (c + w')) \<and> ?d1 y = Some dv \<and>
                  Fin (c + w') < dv \<and> (Fin (c + w'), y) \<in> set pq'"
        then obtain w' where w': "(y, w') \<in> set ns" "d' y = Some (Fin (c + w'))"
          "Fin (c + w') < ?n" "(Fin (c + w'), y) \<in> set pq'" by auto
        from w'(3) True have "Fin (c + w') < dy" by (rule less_trans)
        with w' vy dy show ?thesis by auto
      qed
    qed
    have new1: "\<exists>w' dv. (v, w') \<in> set ns \<and> x = Fin (c + w') \<and> ?d1 v = Some dv \<and> x < dv"
      if "(x, v) \<in> set pq'" "(x, v) \<notin> set ?pq1" for x v
      using rel that unfolding relaxed_def by blast
    have new: "\<exists>w' dv. (v, w') \<in> set (e # ns) \<and> x = Fin (c + w') \<and> d v = Some dv \<and> x < dv"
      if xv: "(x, v) \<in> set pq'" "(x, v) \<notin> set pq" for x v
    proof (cases "(x, v) = (?n, y)")
      case True
      with e dy \<open>?n < dy\<close> show ?thesis by auto
    next
      case False
      with xv have "(x, v) \<notin> set ?pq1" by (auto simp: heappush_def)
      from new1[OF xv(1) this] obtain w' dv where
        w': "(v, w') \<in> set ns" "x = Fin (c + w')" "?d1 v = Some dv" "x < dv" by blast
      show ?thesis
      proof (cases "v = y")
        case vy: True
        with w'(3,4) have "x < ?n" by simp
        then have "x < dy" using True by (rule less_trans)
        with w' vy dy show ?thesis by auto
      next
        case False
        with w' show ?thesis by auto
      qed
    qed
    have fin1: "\<exists>dy'. d' y' = Some dy' \<and> dy' \<le> Fin (c + w')" if "(y', w') \<in> set ns" for y' w'
      using rel that unfolding relaxed_def by blast
    have fin: "\<exists>dy'. d' y' = Some dy' \<and> dy' \<le> Fin (c + w')" if "(y', w') \<in> set (e # ns)" for y' w'
    proof (cases "(y', w') = e")
      case True
      have "?d1 y = Some ?n" by simp
      from relaxed_le[OF rel this] True e show ?thesis by auto
    next
      case False
      with that have "(y', w') \<in> set ns" by auto
      then show ?thesis by (rule fin1)
    qed
    have "relaxed u c (e # ns) pq d pq' d'"
      unfolding relaxed_def using dom du ok sub ch new fin by blast
    with run show ?thesis by blast
  qed
qed

lemma dijkstra_invD:
  assumes "dijkstra_inv g s t pq d"
  shows "dom d = set (vertices g) \<union> {s}" "d s = Some (Fin 0)"
    "\<And>v x. d v = Some (Fin x) \<Longrightarrow> \<exists>es. is_walk g s es v \<and> walk_weight es = x"
    "pq_ok pq d"
    "\<And>v x y w. d v = Some (Fin x) \<Longrightarrow> (Fin x, v) \<notin> set pq \<Longrightarrow> has_edge g v y w
        \<Longrightarrow> \<exists>dy. d y = Some dy \<and> dy \<le> Fin (x + w)"
    "\<And>v x c u. d v = Some (Fin x) \<Longrightarrow> (Fin x, v) \<notin> set pq \<Longrightarrow> (c, u) \<in> set pq \<Longrightarrow> Fin x \<le> c"
    "\<And>x. d t = Some (Fin x) \<Longrightarrow> (Fin x, t) \<in> set pq"
  using assms unfolding dijkstra_inv_def by blast+

lemma pq_okD:
  assumes "pq_ok pq d"
  shows "distinct pq" "\<And>x v. (x, v) \<in> set pq \<Longrightarrow> \<exists>a dv. x = Fin a \<and> d v = Some dv \<and> dv \<le> x"
  using assms unfolding pq_ok_def by blast+

lemma dijkstra_inv_init:
  "dijkstra_inv g s t [(Fin 0, s)]
     ((map_of (map (\<lambda>vertex. (vertex, Infty)) (vertices g)))(s \<mapsto> Fin 0))"
proof -
  let ?d0 = "map_of (map (\<lambda>vertex. (vertex, Infty)) (vertices g))"
  have d0: "?d0 v = Some x \<Longrightarrow> x = Infty" for v x
    by (auto dest!: map_of_SomeD)
  have dom0: "dom ?d0 = set (vertices g)"
    by (auto simp: dom_map_of_conv_image_fst image_image)
  have fin: "(?d0(s \<mapsto> Fin 0)) v = Some (Fin x) \<Longrightarrow> v = s \<and> x = 0" for v x
    using d0[of v "Fin x"] by (auto split: if_splits)
  show ?thesis
    unfolding dijkstra_inv_def
  proof (intro conjI allI impI)
    show "dom (?d0(s \<mapsto> Fin 0)) = set (vertices g) \<union> {s}" using dom0 by auto
    show "(?d0(s \<mapsto> Fin 0)) s = Some (Fin 0)" by simp
    show "pq_ok [(Fin 0, s)] (?d0(s \<mapsto> Fin 0))" by (simp add: pq_ok_def)
  next
    fix v x assume "(?d0(s \<mapsto> Fin 0)) v = Some (Fin x)"
    from fin[OF this] have "is_walk g s [] v \<and> walk_weight [] = x" by simp
    then show "\<exists>es. is_walk g s es v \<and> walk_weight es = x" by blast
  next
    fix v x y w
    assume a: "(?d0(s \<mapsto> Fin 0)) v = Some (Fin x)" "(Fin x, v) \<notin> set [(Fin 0, s)]"
    from fin[OF a(1)] a(2) show "\<exists>dy. (?d0(s \<mapsto> Fin 0)) y = Some dy \<and> dy \<le> Fin (x + w)" by simp
  next
    fix v x c u
    assume a: "(?d0(s \<mapsto> Fin 0)) v = Some (Fin x)" "(Fin x, v) \<notin> set [(Fin 0, s)]"
    from fin[OF a(1)] a(2) show "Fin x \<le> c" by simp
  next
    fix x assume "(?d0(s \<mapsto> Fin 0)) t = Some (Fin x)"
    from fin[OF this] show "(Fin x, t) \<in> set [(Fin 0, s)]" by simp
  qed
qed

lemma dijkstra_lower_bound:
  assumes inv: "dijkstra_inv g s t pq d" and nn: "nonneg_weights g"
    and m: "\<And>c u. (c, u) \<in> set pq \<Longrightarrow> m \<le> c"
    and walk: "is_walk g s es v" and lt: "Fin (walk_weight es) < m"
  shows "\<exists>dv. d v = Some dv \<and> dv \<le> Fin (walk_weight es)"
  using walk lt
proof (induction es arbitrary: v rule: rev_induct)
  case Nil
  then show ?case using dijkstra_invD(2)[OF inv] by simp
next
  case (snoc e es)
  obtain x y w where e: "e = (x, y, w)" by (cases e)
  from snoc.prems(1) e have wk: "is_walk g s es x" and ed: "has_edge g x y w" and y: "y = v"
    by (auto simp: is_walk_snoc)
  from has_edge_nonneg[OF nn ed] have w: "0 \<le> w" .
  with snoc.prems(2) e have "Fin (walk_weight es) < m"
    by (cases m) auto
  from snoc.IH[OF wk this] obtain dx where dx: "d x = Some dx" "dx \<le> Fin (walk_weight es)" by blast
  then obtain a where a: "dx = Fin a" "a \<le> walk_weight es" by (cases dx) auto
  have "(Fin a, x) \<notin> set pq"
  proof
    assume "(Fin a, x) \<in> set pq"
    from m[OF this] a \<open>Fin (walk_weight es) < m\<close> show False by (cases m) auto
  qed
  from dijkstra_invD(5)[OF inv dx(1)[unfolded a(1)] this ed]
  obtain dy where "d y = Some dy" "dy \<le> Fin (a + w)" by blast
  moreover have "Fin (a + w) \<le> Fin (walk_weight (es @ [e]))" using a e by simp
  ultimately show ?case using y by (meson order_trans)
qed

lemma open_nodes_finite:
  "dijkstra_inv g s t pq d \<Longrightarrow> finite (open_nodes pq d)"
proof -
  assume "dijkstra_inv g s t pq d"
  then have "finite (dom d)" by (simp add: dijkstra_invD(1))
  moreover have "open_nodes pq d \<subseteq> dom d" by (auto simp: open_nodes_def)
  ultimately show ?thesis by (rule rev_finite_subset)
qed

lemma fst_le_of_pair_le: "(c, u) \<le> (x, v) \<Longrightarrow> c \<le> (x::dist)"
  by (auto simp: less_eq_prod_def)

lemma dijkstra_stale_step:
  assumes inv: "dijkstra_inv g s t pq d"
    and pop: "heappop (\<lambda>item. item) pq = Some ((c, u), pq')"
    and du: "d u = Some du" "du < c"
  shows "dijkstra_inv g s t pq' d" "open_nodes pq' d \<subseteq> open_nodes pq d" "length pq' < length pq"
proof -
  note hp = heappop_Some[OF pop]
  have pq': "pq' = remove1 (c, u) pq" by (rule hp(3))
  have sub: "set pq' \<subseteq> set pq" unfolding pq' by (rule set_remove1_subset)
  have keep: "(x, v) \<in> set pq'" if "(x, v) \<in> set pq" "d v = Some x" for x v
  proof -
    from that du have "(x, v) \<noteq> (c, u)" by auto
    with that(1) show ?thesis unfolding pq' by simp
  qed
  show "length pq' < length pq" by (rule heappop_length[OF pop])
  show "open_nodes pq' d \<subseteq> open_nodes pq d" using sub by (auto simp: open_nodes_def)
  have ok: "pq_ok pq' d"
    using dijkstra_invD(4)[OF inv] sub unfolding pq_ok_def pq' by (auto simp: distinct_remove1)
  show "dijkstra_inv g s t pq' d"
    unfolding dijkstra_inv_def
  proof (intro conjI allI impI)
    show "dom d = set (vertices g) \<union> {s}" by (rule dijkstra_invD(1)[OF inv])
    show "d s = Some (Fin 0)" by (rule dijkstra_invD(2)[OF inv])
    show "pq_ok pq' d" by (rule ok)
  next
    fix v x assume "d v = Some (Fin x)"
    then show "\<exists>es. is_walk g s es v \<and> walk_weight es = x" by (rule dijkstra_invD(3)[OF inv])
  next
    fix v x y w assume a: "d v = Some (Fin x)" "(Fin x, v) \<notin> set pq'" "has_edge g v y w"
    from a(1,2) keep have "(Fin x, v) \<notin> set pq" by blast
    from dijkstra_invD(5)[OF inv a(1) this a(3)]
    show "\<exists>dy. d y = Some dy \<and> dy \<le> Fin (x + w)" .
  next
    fix v x c' u' assume a: "d v = Some (Fin x)" "(Fin x, v) \<notin> set pq'" "(c', u') \<in> set pq'"
    from a(1,2) keep have "(Fin x, v) \<notin> set pq" by blast
    from dijkstra_invD(6)[OF inv a(1) this] a(3) sub show "Fin x \<le> c'" by blast
  next
    fix x assume a: "d t = Some (Fin x)"
    from dijkstra_invD(7)[OF inv a] keep a show "(Fin x, t) \<in> set pq'" by blast
  qed
qed

lemma dijkstra_live_step:
  assumes inv: "dijkstra_inv g s t pq d" and wf: "wf_graph g" and nn: "nonneg_weights g"
    and pop: "heappop (\<lambda>item. item) pq = Some ((c, u), pq')"
    and du: "d u = Some du" "\<not> du < c" and ut: "u \<noteq> t"
    and ns: "ns = (case map_of (adjacency_list g) u of None \<Rightarrow> [] | Some ns \<Rightarrow> ns)"
  shows "\<exists>a pq'' d''. c = Fin a \<and> relax_neighbors u ns (pq', d) = Inr (pq'', d'') \<and>
           dijkstra_inv g s t pq'' d'' \<and> open_nodes pq'' d'' \<subset> open_nodes pq d"
proof -
  note hp = heappop_Some[OF pop]
  note ok = dijkstra_invD(4)[OF inv]
  have pq': "pq' = remove1 (c, u) pq" by (rule hp(3))
  have dist: "distinct pq" by (rule pq_okD(1)[OF ok])
  have mem: "(c, u) \<in> set pq" by (rule hp(1))
  have setpq': "set pq' = set pq - {(c, u)}" unfolding pq' using dist by simp
  from pq_okD(2)[OF ok mem] du obtain a where a: "c = Fin a" and dua: "d u = Some (Fin a)"
    by (metis leI option.inject order_antisym)
  have least: "Fin a \<le> x" if "(x, v) \<in> set pq" for x v
    using hp(2) that a by (auto dest: fst_le_of_pair_le)
  from dijkstra_invD(3)[OF inv dua] obtain eu where eu: "is_walk g s eu u" "walk_weight eu = a"
    by blast
  from walk_weight_nonneg[OF nn eu(1)] eu(2) have a0: "0 \<le> a" by simp
  have edge_iff: "has_edge g u y w \<longleftrightarrow> (y, w) \<in> set ns" for y w
    unfolding ns has_edge_def by (auto split: option.splits)
  have pre: "\<forall>y w. (y, w) \<in> set ns \<longrightarrow> y \<in> dom d \<and> 0 \<le> w"
  proof (intro allI impI)
    fix y w assume "(y, w) \<in> set ns"
    then have e: "has_edge g u y w" by (simp add: edge_iff)
    from has_edge_vertices(2)[OF wf e] has_edge_nonneg[OF nn e] dijkstra_invD(1)[OF inv]
    show "y \<in> dom d \<and> 0 \<le> w" by simp
  qed
  have ok': "pq_ok pq' d"
    using ok setpq' unfolding pq_ok_def pq' by (auto simp: distinct_remove1)
  from relax_neighbors_relaxed[OF dua ok' pre] obtain pq'' d'' where
    run: "relax_neighbors u ns (pq', d) = Inr (pq'', d'')" and rel: "relaxed u a ns pq' d pq'' d''"
    by blast
  from rel have R1: "dom d'' = dom d" and R2: "d'' u = Some (Fin a)" and R3: "pq_ok pq'' d''"
    and R4: "set pq' \<subseteq> set pq''" by (simp_all add: relaxed_def)
  have R5: "d'' v = d v \<or>
          (\<exists>w dv. (v, w) \<in> set ns \<and> d'' v = Some (Fin (a + w)) \<and> d v = Some dv \<and>
                  Fin (a + w) < dv \<and> (Fin (a + w), v) \<in> set pq'')" for v
    using rel unfolding relaxed_def by blast
  have R6: "\<exists>w dv. (v, w) \<in> set ns \<and> x = Fin (a + w) \<and> d v = Some dv \<and> x < dv"
    if "(x, v) \<in> set pq''" "(x, v) \<notin> set pq'" for x v
    using rel that unfolding relaxed_def by blast
  have R7: "\<exists>dy. d'' y = Some dy \<and> dy \<le> Fin (a + w)" if "(y, w) \<in> set ns" for y w
    using rel that unfolding relaxed_def by blast
  have wpos: "0 \<le> w" if "(y, w) \<in> set ns" for y w using pre that by blast
  have H3: "(Fin a, u) \<notin> set pq''"
  proof
    assume m: "(Fin a, u) \<in> set pq''"
    have "(Fin a, u) \<notin> set pq'" using setpq' a by simp
    from R6[OF m this] dua show False by auto
  qed
  have H5: "Fin a \<le> x" if "(x, v) \<in> set pq''" for x v
  proof (cases "(x, v) \<in> set pq'")
    case True
    with setpq' least show ?thesis by blast
  next
    case False
    from R6[OF that False] obtain w where "(v, w) \<in> set ns" "x = Fin (a + w)" by blast
    with wpos show ?thesis by auto
  qed
  have H6: "d v = Some (Fin x) \<and> (Fin x, v) \<notin> set pq"
    if "d'' v = Some (Fin x)" "(Fin x, v) \<notin> set pq''" "v \<noteq> u" for v x
  proof -
    from R5[of v] that(1,2) have "d'' v = d v" by auto
    moreover from that(2) R4 have "(Fin x, v) \<notin> set pq'" by blast
    with setpq' that(3) have "(Fin x, v) \<notin> set pq" by simp
    ultimately show ?thesis using that(1) by simp
  qed
  have inv'': "dijkstra_inv g s t pq'' d''"
    unfolding dijkstra_inv_def
  proof (intro conjI allI impI)
    show "dom d'' = set (vertices g) \<union> {s}" using R1 dijkstra_invD(1)[OF inv] by simp
    show "pq_ok pq'' d''" by (rule R3)
    show "d'' s = Some (Fin 0)"
    proof (rule disjE[OF R5[of s]])
      assume "d'' s = d s"
      with dijkstra_invD(2)[OF inv] show ?thesis by simp
    next
      assume "\<exists>w dv. (s, w) \<in> set ns \<and> d'' s = Some (Fin (a + w)) \<and> d s = Some dv \<and>
                  Fin (a + w) < dv \<and> (Fin (a + w), s) \<in> set pq''"
      then obtain w where "(s, w) \<in> set ns" "Fin (a + w) < Fin 0"
        using dijkstra_invD(2)[OF inv] by auto
      with wpos[of s w] a0 show ?thesis by simp
    qed
  next
    fix v x assume dv: "d'' v = Some (Fin x)"
    from R5[of v] show "\<exists>es. is_walk g s es v \<and> walk_weight es = x"
    proof
      assume "d'' v = d v"
      with dv dijkstra_invD(3)[OF inv, of v x] show ?thesis by simp
    next
      assume "\<exists>w dv. (v, w) \<in> set ns \<and> d'' v = Some (Fin (a + w)) \<and> d v = Some dv \<and>
                  Fin (a + w) < dv \<and> (Fin (a + w), v) \<in> set pq''"
      then obtain w where w: "(v, w) \<in> set ns" "d'' v = Some (Fin (a + w))" by blast
      then have "has_edge g u v w" by (simp add: edge_iff)
      with eu have "is_walk g s (eu @ [(u, v, w)]) v" by (simp add: is_walk_snoc)
      moreover have "walk_weight (eu @ [(u, v, w)]) = x" using eu(2) w(2) dv by simp
      ultimately show ?thesis by blast
    qed
  next
    fix v x y w
    assume dv: "d'' v = Some (Fin x)" and np: "(Fin x, v) \<notin> set pq''" and e: "has_edge g v y w"
    show "\<exists>dy. d'' y = Some dy \<and> dy \<le> Fin (x + w)"
    proof (cases "v = u")
      case True
      with dv R2 have "x = a" by simp
      with R7[of y w] e True show ?thesis by (simp add: edge_iff)
    next
      case False
      from H6[OF dv np False] have "d v = Some (Fin x)" "(Fin x, v) \<notin> set pq" by simp_all
      from dijkstra_invD(5)[OF inv this e] obtain dy where dy: "d y = Some dy" "dy \<le> Fin (x + w)"
        by blast
      from relaxed_le[OF rel dy(1)] obtain dy' where "d'' y = Some dy'" "dy' \<le> dy" by blast
      with dy(2) show ?thesis by (meson order_trans)
    qed
  next
    fix v x c' u'
    assume dv: "d'' v = Some (Fin x)" and np: "(Fin x, v) \<notin> set pq''" and m: "(c', u') \<in> set pq''"
    have "Fin x \<le> Fin a"
    proof (cases "v = u")
      case True
      with dv R2 show ?thesis by simp
    next
      case False
      from H6[OF dv np False] have "d v = Some (Fin x)" "(Fin x, v) \<notin> set pq" by simp_all
      from dijkstra_invD(6)[OF inv this mem] a show ?thesis by simp
    qed
    with H5[OF m] show "Fin x \<le> c'" by (meson order_trans)
  next
    fix x assume dt: "d'' t = Some (Fin x)"
    from R5[of t] show "(Fin x, t) \<in> set pq''"
    proof
      assume "d'' t = d t"
      with dt have "d t = Some (Fin x)" by simp
      from dijkstra_invD(7)[OF inv this] ut setpq' R4 show ?thesis by auto
    next
      assume "\<exists>w dv. (t, w) \<in> set ns \<and> d'' t = Some (Fin (a + w)) \<and> d t = Some dv \<and>
                  Fin (a + w) < dv \<and> (Fin (a + w), t) \<in> set pq''"
      with dt show ?thesis by auto
    qed
  qed
  have u_open: "u \<in> open_nodes pq d" using dua mem a by (auto simp: open_nodes_def)
  have u_closed: "u \<notin> open_nodes pq'' d''" using R2 H3 by (auto simp: open_nodes_def)
  have sub: "open_nodes pq'' d'' \<subseteq> open_nodes pq d"
  proof
    fix v assume "v \<in> open_nodes pq'' d''"
    then obtain dv'' where dv'': "d'' v = Some dv''" "dv'' = Infty \<or> (dv'', v) \<in> set pq''"
      by (auto simp: open_nodes_def)
    from R5[of v] show "v \<in> open_nodes pq d"
    proof
      assume same: "d'' v = d v"
      with dv''(1) have dv: "d v = Some dv''" by simp
      show ?thesis
      proof (cases "dv'' = Infty \<or> (dv'', v) \<in> set pq'")
        case True
        with setpq' have "dv'' = Infty \<or> (dv'', v) \<in> set pq" by blast
        with dv show ?thesis unfolding open_nodes_def by blast
      next
        case False
        with dv''(2) have "(dv'', v) \<in> set pq''" "(dv'', v) \<notin> set pq'" by auto
        from R6[OF this] dv show ?thesis by auto
      qed
    next
      assume "\<exists>w dv. (v, w) \<in> set ns \<and> d'' v = Some (Fin (a + w)) \<and> d v = Some dv \<and>
                  Fin (a + w) < dv \<and> (Fin (a + w), v) \<in> set pq''"
      then obtain w dv where w: "(v, w) \<in> set ns" "d v = Some dv" "Fin (a + w) < dv" by blast
      show ?thesis
      proof (cases dv)
        case Infty
        with w(2) show ?thesis by (auto simp: open_nodes_def)
      next
        case (Fin b)
        have "(Fin b, v) \<in> set pq"
        proof (rule ccontr)
          assume "(Fin b, v) \<notin> set pq"
          from dijkstra_invD(6)[OF inv w(2)[unfolded Fin] this mem] a have "b \<le> a" by simp
          with w(3) Fin wpos[OF w(1)] show False by simp
        qed
        with w(2) Fin show ?thesis by (auto simp: open_nodes_def)
      qed
    qed
  qed
  from sub u_open u_closed have "open_nodes pq'' d'' \<subset> open_nodes pq d" by blast
  with a run inv'' show ?thesis by blast
qed

lemma dijkstra_loop_correct:
  assumes wf: "wf_graph g" and nn: "nonneg_weights g"
  shows "dijkstra_inv g s t (fst x) (snd x) \<Longrightarrow>
         \<exists>r. dijkstra_loop g t (fst x) (snd x) = Some (Inr r) \<and> is_shortest_distance g s t r"
proof (induction x rule: wf_induct_rule[OF wf_measures[of
          "[\<lambda>x. card (open_nodes (fst x) (snd x)), \<lambda>x. length (fst x)]"]])
  case (1 x)
  obtain pq d where x: "x = (pq, d)" by (cases x)
  from "1.prems" x have inv: "dijkstra_inv g s t pq d" by simp
  have IH: "\<exists>r. dijkstra_loop g t pq2 d2 = Some (Inr r) \<and> is_shortest_distance g s t r"
    if "dijkstra_inv g s t pq2 d2"
      "card (open_nodes pq2 d2) < card (open_nodes pq d) \<or>
       card (open_nodes pq2 d2) = card (open_nodes pq d) \<and> length pq2 < length pq"
    for pq2 d2
    using "1.IH"[of "(pq2, d2)"] that x by auto
  note ok = dijkstra_invD(4)[OF inv]
  show ?case
  proof (cases "heappop (\<lambda>item. item) pq")
    case None
    then have empty: "pq = []" by (simp add: heappop_None)
    have res: "dijkstra_loop g t pq d = Some (Inr Infty)"
      by (subst dijkstra_loop.simps) (simp add: None)
    have "\<not> is_walk g s es t" for es
    proof
      assume w: "is_walk g s es t"
      have "Fin (walk_weight es) < Infty" by simp
      from dijkstra_lower_bound[OF inv nn _ w this] empty
      obtain dv where dv: "d t = Some dv" "dv \<le> Fin (walk_weight es)" by auto
      then obtain a where "dv = Fin a" by (cases dv) auto
      with dv dijkstra_invD(7)[OF inv, of a] empty show False by simp
    qed
    then have "is_shortest_distance g s t Infty" by (simp add: is_shortest_distance_def)
    with res x show ?thesis by auto
  next
    case (Some p)
    obtain c u pq' where p: "p = ((c, u), pq')" by (cases p) auto
    with Some have pop: "heappop (\<lambda>item. item) pq = Some ((c, u), pq')" by simp
    note hp = heappop_Some[OF pop]
    from pq_okD(2)[OF ok hp(1)] obtain a du where
      a: "c = Fin a" and du: "d u = Some du" and dule: "du \<le> c" by blast
    show ?thesis
    proof (cases "du < c")
      case True
      have res: "dijkstra_loop g t pq d = dijkstra_loop g t pq' d"
        by (subst dijkstra_loop.simps) (simp add: pop du True)
      note st = dijkstra_stale_step[OF inv pop du True]
      have "card (open_nodes pq' d) \<le> card (open_nodes pq d)"
        by (rule card_mono[OF open_nodes_finite[OF inv] st(2)])
      with st(3) have "card (open_nodes pq' d) < card (open_nodes pq d) \<or>
       card (open_nodes pq' d) = card (open_nodes pq d) \<and> length pq' < length pq" by auto
      from IH[OF st(1) this] res x show ?thesis by simp
    next
      case False
      with dule have duc: "du = c" by simp
      show ?thesis
      proof (cases "u = t")
        case True
        have res: "dijkstra_loop g t pq d = Some (Inr (Fin a))"
          by (subst dijkstra_loop.simps) (use pop du False True duc a in simp)
        from du duc a True have dt: "d t = Some (Fin a)" by simp
        from dijkstra_invD(3)[OF inv dt] obtain es where
          es: "is_walk g s es t" "walk_weight es = a" by blast
        have lb: "Fin a \<le> Fin (walk_weight es')" if w: "is_walk g s es' t" for es'
        proof (rule ccontr)
          assume "\<not> Fin a \<le> Fin (walk_weight es')"
          then have lt: "Fin (walk_weight es') < Fin a" by simp
          have m: "Fin a \<le> c'" if "(c', u') \<in> set pq" for c' u'
            using hp(2) that a by (auto dest: fst_le_of_pair_le)
          from dijkstra_lower_bound[OF inv nn m w lt] dt lt show False by auto
        qed
        from es lb have "is_shortest_distance g s t (Fin a)"
          unfolding is_shortest_distance_def by blast
        with res x show ?thesis by auto
      next
        case ut: False
        define ns where "ns = (case map_of (adjacency_list g) u of None \<Rightarrow> [] | Some ns \<Rightarrow> ns)"
        from dijkstra_live_step[OF inv wf nn pop du False ut ns_def]
        obtain a' pq'' d'' where
          run: "relax_neighbors u ns (pq', d) = Inr (pq'', d'')" and
          inv'': "dijkstra_inv g s t pq'' d''" and
          sub: "open_nodes pq'' d'' \<subset> open_nodes pq d" by blast
        have res: "dijkstra_loop g t pq d = dijkstra_loop g t pq'' d''"
        proof (cases "map_of (adjacency_list g) u")
          case None
          with run ns_def have "pq'' = pq'" "d'' = d" by simp_all
          then show ?thesis
            by (subst dijkstra_loop.simps) (use pop du False ut None in simp)
        next
          case (Some ns')
          with run ns_def have "relax_neighbors u ns' (pq', d) = Inr (pq'', d'')" by simp
          then show ?thesis
            by (subst dijkstra_loop.simps) (use pop du False ut Some in simp)
        qed
        have "card (open_nodes pq'' d'') < card (open_nodes pq d)"
          by (rule psubset_card_mono[OF open_nodes_finite[OF inv] sub])
        then have "card (open_nodes pq'' d'') < card (open_nodes pq d) \<or>
          card (open_nodes pq'' d'') = card (open_nodes pq d) \<and> length pq'' < length pq" by simp
        from IH[OF inv'' this] res x show ?thesis by simp
      qed
    qed
  qed
qed

lemma dijkstra_correct:
  assumes "wf_graph g" "nonneg_weights g"
  shows "\<exists>r. dijkstra_shortest_path g s t = Some (Inr r) \<and> is_shortest_distance g s t r"
  unfolding dijkstra_shortest_path_def
  using dijkstra_loop_correct[OF assms, of s t "([(Fin 0, s)],
     (map_of (map (\<lambda>vertex. (vertex, Infty)) (vertices g)))(s \<mapsto> Fin 0))"]
    dijkstra_inv_init[of g s t]
  by simp

subsection \<open>Termination and unreachable targets\<close>





subsection \<open>Arbitrary location tokens\<close>




lemma unknown_target_unreachable:
  assumes "wf_graph g" "t \<notin> set (vertices g)" "t \<noteq> s"
  shows "\<not> reachable g s t"
  using is_walk_vertex[OF assms(1), of s _ t] assms(2,3) by (auto simp: reachable_def)







subsection \<open>Correctness of the table\<close>

lemma mat_get_full:
  assumes "full_on V m" "i \<in> V" "j \<in> V"
  shows "mat_get m i j = Inr (entry m i j)"
proof -
  from assms(1,2) obtain row where row: "m i = Some row" "dom row = V"
    unfolding full_on_def by blast
  with assms(3) obtain d where "row j = Some d" by auto
  with row show ?thesis by (simp add: mat_get_def entry_def)
qed

lemma mat_set_full:
  assumes "full_on V m" "i \<in> V" "j \<in> V"
  shows "\<exists>m'. mat_set m i j x = Inr m' \<and> full_on V m' \<and>
           entry m' = (\<lambda>a b. if a = i \<and> b = j then x else entry m a b)"
proof -
  from assms(1,2) obtain row where row: "m i = Some row" "dom row = V"
    unfolding full_on_def by blast
  let ?m' = "m(i \<mapsto> row(j \<mapsto> x))"
  have run: "mat_set m i j x = Inr ?m'" using row by (simp add: mat_set_def)
  have full: "full_on V ?m'"
    using assms row unfolding full_on_def by (auto simp: insert_absorb)
  have "entry ?m' a b = (if a = i \<and> b = j then x else entry m a b)" for a b
    using row by (auto simp: entry_def mat_get_def split: option.splits)
  then have "entry ?m' = (\<lambda>a b. if a = i \<and> b = j then x else entry m a b)" by (intro ext)
  with run full show ?thesis by blast
qed

lemma init_matrix_full:
  "full_on (set vs) (init_matrix vs)" "entry (init_matrix vs) i j = Infty"
proof -
  let ?row = "map_of (map (\<lambda>u. (u, Infty)) vs)"
  have rowdom: "dom ?row = set vs" by (auto simp: dom_map_of_conv_image_fst image_image)
  have rowval: "?row j = Some d \<Longrightarrow> d = Infty" for j d by (auto dest!: map_of_SomeD)
  have m: "init_matrix vs i = Some r \<Longrightarrow> r = ?row" for i r
    by (auto simp: init_matrix_def dest!: map_of_SomeD)
  have mdom: "dom (init_matrix vs) = set vs"
    by (auto simp: init_matrix_def dom_map_of_conv_image_fst image_image)
  show "full_on (set vs) (init_matrix vs)"
    unfolding full_on_def using mdom rowdom m by (metis domD)
  show "entry (init_matrix vs) i j = Infty"
    using m[of i] rowval[of j]
    by (auto simp: entry_def mat_get_def split: option.splits sum.splits)
qed

lemma set_diagonal_full:
  assumes "full_on V m" "set vs \<subseteq> V"
  shows "\<exists>m'. set_diagonal vs m = Inr m' \<and> full_on V m' \<and>
           entry m' = (\<lambda>a b. if a = b \<and> a \<in> set vs then Fin 0 else entry m a b)"
  using assms
proof (induction vs arbitrary: m)
  case Nil
  then show ?case by simp
next
  case (Cons v vs)
  then have v: "v \<in> V" and vs: "set vs \<subseteq> V" by auto
  from mat_set_full[OF Cons.prems(1) v v, of "Fin 0"] obtain m1 where
    m1: "mat_set m v v (Fin 0) = Inr m1" "full_on V m1"
      "entry m1 = (\<lambda>a b. if a = v \<and> b = v then Fin 0 else entry m a b)" by blast
  from Cons.IH[OF m1(2) vs] obtain m' where
    m': "set_diagonal vs m1 = Inr m'" "full_on V m'"
     "entry m' = (\<lambda>a b. if a = b \<and> a \<in> set vs then Fin 0 else entry m1 a b)" by blast
  have "entry m' = (\<lambda>a b. if a = b \<and> a \<in> set (v # vs) then Fin 0 else entry m a b)"
    unfolding m'(3) m1(3) by (intro ext) auto
  with m1(1) m'(1,2) show ?case by simp
qed

lemma via_relax:
  assumes kk: "Fin 0 \<le> D k k"
  shows "(\<lambda>a b. if a = i \<and> b = j \<and> via k D P i k + via k D P k j < via k D P i j
                then via k D P i k + via k D P k j else via k D P a b)
         = via k D (insert (i, j) P)"
proof -
  have inc1: "x \<le> x + D k k" for x using kk by (metis add.right_neutral add_left_mono zero_dist_def)
  have inc2: "x \<le> D k k + x" for x using inc1[of x] by (simp add: add.commute)
  have ik: "via k D P i k = D i k" using inc1[of "D i k"] by (simp add: via_def min_def)
  have kj: "via k D P k j = D k j" using inc2[of "D k j"] by (simp add: via_def min_def)
  show ?thesis
    unfolding ik kj by (intro ext) (auto simp: via_def min_def)
qed

lemma fw_j_via:
  assumes "full_on V m" "k \<in> V" "i \<in> V" "set js \<subseteq> V" "Fin 0 \<le> D k k" "entry m = via k D P"
  shows "\<exists>m'. fw_j k i js m = Inr m' \<and> full_on V m' \<and> entry m' = via k D (P \<union> {i} \<times> set js)"
  using assms(1,4,6)
proof (induction js arbitrary: m P)
  case Nil
  then show ?case by simp
next
  case (Cons j js)
  then have j: "j \<in> V" and js: "set js \<subseteq> V" by auto
  note full = Cons.prems(1)
  note e = Cons.prems(3)
  note g = mat_get_full[OF full]
  let ?new = "entry m i k + entry m k j"
  have ins: "P \<union> {i} \<times> set (j # js) = insert (i, j) P \<union> {i} \<times> set js" by auto
  show ?case
  proof (cases "?new < entry m i j")
    case True
    from mat_set_full[OF full assms(3) j, of ?new] obtain m1 where
      m1: "mat_set m i j ?new = Inr m1" "full_on V m1"
        "entry m1 = (\<lambda>a b. if a = i \<and> b = j then ?new else entry m a b)" by blast
    have "entry m1 = via k D (insert (i, j) P)"
      using via_relax[where D = D and k = k and i = i and j = j and P = P, OF assms(5)] True unfolding m1(3) e by (auto intro!: ext dest: fun_cong)
    from Cons.IH[OF m1(2) js this] obtain m' where
      "fw_j k i js m1 = Inr m'" "full_on V m'" "entry m' = via k D (insert (i, j) P \<union> {i} \<times> set js)"
      by blast
    with True m1(1) g[OF assms(3,2)] g[OF assms(2) j] g[OF assms(3) j] ins show ?thesis
      by simp
  next
    case False
    have "entry m = via k D (insert (i, j) P)"
      using via_relax[where D = D and k = k and i = i and j = j and P = P, OF assms(5)] False unfolding e by (auto intro!: ext dest: fun_cong)
    from Cons.IH[OF full js this] obtain m' where
      "fw_j k i js m = Inr m'" "full_on V m'" "entry m' = via k D (insert (i, j) P \<union> {i} \<times> set js)"
      by blast
    with False g[OF assms(3,2)] g[OF assms(2) j] g[OF assms(3) j] ins show ?thesis
      by simp
  qed
qed

lemma fw_i_via:
  assumes "full_on V m" "k \<in> V" "set is \<subseteq> V" "set vs \<subseteq> V" "Fin 0 \<le> D k k" "entry m = via k D P"
  shows "\<exists>m'. fw_i vs k is m = Inr m' \<and> full_on V m' \<and> entry m' = via k D (P \<union> set is \<times> set vs)"
  using assms(1,3,6)
proof (induction "is" arbitrary: m P)
  case Nil
  then show ?case by simp
next
  case (Cons i "is")
  then have i: "i \<in> V" and "is": "set is \<subseteq> V" by auto
  from fw_j_via[OF Cons.prems(1) assms(2) i assms(4,5) Cons.prems(3)] obtain m1 where
    m1: "fw_j k i vs m = Inr m1" "full_on V m1" "entry m1 = via k D (P \<union> {i} \<times> set vs)" by blast
  from Cons.IH[OF m1(2) "is" m1(3)] obtain m' where
    m': "fw_i vs k is m1 = Inr m'" "full_on V m'"
      "entry m' = via k D (P \<union> {i} \<times> set vs \<union> set is \<times> set vs)" by blast
  have "P \<union> {i} \<times> set vs \<union> set is \<times> set vs = P \<union> set (i # is) \<times> set vs" by auto
  with m1(1) m' show ?case by simp
qed

lemma fw_round:
  assumes "full_on (set vs) m" "k \<in> set vs" "Fin 0 \<le> entry m k k"
  shows "\<exists>m'. fw_i vs k vs m = Inr m' \<and> full_on (set vs) m' \<and>
           entry m' = via k (entry m) (set vs \<times> set vs)"
proof -
  have "entry m = via k (entry m) {}" by (simp add: via_def)
  from fw_i_via[OF assms(1,2) _ _ assms(3) this, of vs vs] show ?thesis by simp
qed

lemma fw_invD:
  assumes "fw_inv g K D" "i \<in> set (vertices g)" "j \<in> set (vertices g)"
  shows "Fin 0 \<le> D i j"
    "D i j = Infty \<or> (\<exists>es. is_walk g i es j \<and> inner es \<subseteq> K \<and> D i j = Fin (walk_weight es))"
    "\<And>es. is_walk g i es j \<Longrightarrow> inner es \<subseteq> K \<Longrightarrow> D i j \<le> Fin (walk_weight es)"
  using assms unfolding fw_inv_def by blast+

lemma walk_sources:
  "is_walk g u es v \<Longrightarrow> es \<noteq> [] \<Longrightarrow> fst (hd es) = u"
  by (cases es) auto

lemma inner_append:
  assumes "is_walk g x es2 y"
  shows "inner (es1 @ es2) \<subseteq> inner es1 \<union> {x} \<union> inner es2"
proof -
  have src: "set (map fst es2) \<subseteq> {x} \<union> inner es2"
  proof (cases es2)
    case Nil
    then show ?thesis by simp
  next
    case (Cons e r)
    with assms have "fst e = x" by (cases e) auto
    with Cons show ?thesis by (auto simp: inner_def)
  qed
  show ?thesis
  proof (cases es1)
    case Nil
    then show ?thesis by (auto simp: inner_def)
  next
    case (Cons e r)
    then have "inner (es1 @ es2) = set (map fst r) \<union> set (map fst es2)" by (simp add: inner_def)
    moreover have "inner es1 = set (map fst r)" using Cons by (simp add: inner_def)
    ultimately show ?thesis using src by auto
  qed
qed

lemma via_lower_bound:
  assumes inv: "fw_inv g K D" and k: "k \<in> set (vertices g)" and j: "j \<in> set (vertices g)"
  shows "i \<in> set (vertices g) \<Longrightarrow> is_walk g i es j \<Longrightarrow> inner es \<subseteq> insert k K
         \<Longrightarrow> min (D i j) (D i k + D k j) \<le> Fin (walk_weight es)"
proof (induction "length es" arbitrary: es i rule: less_induct)
  case less
  note i = less.prems(1) and walk = less.prems(2) and inn = less.prems(3)
  show ?case
  proof (cases "k \<in> inner es")
    case False
    with inn have "inner es \<subseteq> K" by auto
    from fw_invD(3)[OF inv i j walk this] show ?thesis by (simp add: min_le_iff_disj)
  next
    case True
    then obtain e rest where es: "es = e # rest" and kin: "k \<in> set (map fst rest)"
      by (cases es) (auto simp: inner_def)
    from kin have "\<exists>x\<in>set rest. fst x = k" by auto
    from split_list_first_prop[OF this] obtain r1 x r2 where
      rest: "rest = r1 @ x # r2" and xk: "fst x = k" and r1: "\<forall>y\<in>set r1. fst y \<noteq> k" by blast
    let ?es1 = "e # r1" and ?es2 = "x # r2"
    have split: "es = ?es1 @ ?es2" using es rest by simp
    with walk obtain z where w1: "is_walk g i ?es1 z" and w2: "is_walk g z ?es2 j"
      by (auto simp only: is_walk_append)
    from w2 xk have z: "z = k" by (cases x) auto
    have "inner ?es1 \<subseteq> inner es" using split by (auto simp: inner_def)
    moreover have "k \<notin> inner ?es1" using r1 by (auto simp: inner_def)
    ultimately have in1: "inner ?es1 \<subseteq> K" using inn by auto
    have in2: "inner ?es2 \<subseteq> insert k K" using inn split by (auto simp: inner_def)
    from fw_invD(3)[OF inv i k w1[unfolded z] in1] have b1: "D i k \<le> Fin (walk_weight ?es1)" .
    have len: "length ?es2 < length es" using split by simp
    from less.hyps[OF len k w2[unfolded z] in2]
    have "min (D k j) (D k k + D k j) \<le> Fin (walk_weight ?es2)" .
    moreover have "D k j \<le> D k k + D k j"
      using fw_invD(1)[OF inv k k] by (metis add.left_neutral add_right_mono zero_dist_def)
    ultimately have b2: "D k j \<le> Fin (walk_weight ?es2)" by (simp add: min_def)
    have "walk_weight es = walk_weight ?es1 + walk_weight ?es2"
      unfolding split by (rule walk_weight_simps(3))
    with add_mono[OF b1 b2] have "D i k + D k j \<le> Fin (walk_weight es)"
      by simp
    then show ?thesis by (simp add: min_le_iff_disj)
  qed
qed

lemma fw_inv_step:
  assumes inv: "fw_inv g K D" and k: "k \<in> set (vertices g)"
  shows "fw_inv g (insert k K) (via k D (set (vertices g) \<times> set (vertices g)))"
  unfolding fw_inv_def
proof (intro ballI conjI allI impI)
  fix i j assume i: "i \<in> set (vertices g)" and j: "j \<in> set (vertices g)"
  let ?E = "via k D (set (vertices g) \<times> set (vertices g))"
  have E: "?E i j = min (D i j) (D i k + D k j)" using i j by (simp add: via_def)
  have "Fin 0 \<le> D i k + D k j"
    using add_mono[OF fw_invD(1)[OF inv i k] fw_invD(1)[OF inv k j]] by simp
  with fw_invD(1)[OF inv i j] show "Fin 0 \<le> ?E i j" unfolding E by simp
  show "?E i j = Infty \<or>
        (\<exists>es. is_walk g i es j \<and> inner es \<subseteq> insert k K \<and> ?E i j = Fin (walk_weight es))"
  proof (cases "D i j \<le> D i k + D k j")
    case True
    then have "?E i j = D i j" unfolding E by (simp add: min_def)
    with fw_invD(2)[OF inv i j] show ?thesis by auto
  next
    case False
    then have Eij: "?E i j = D i k + D k j" unfolding E by (simp add: min_def)
    show ?thesis
    proof (cases "D i k + D k j")
      case Infty
      with Eij show ?thesis by simp
    next
      case (Fin c)
      then obtain a b where a: "D i k = Fin a" and b: "D k j = Fin b"
        by (cases "D i k"; cases "D k j") auto
      from fw_invD(2)[OF inv i k] a obtain es1 where
        es1: "is_walk g i es1 k" "inner es1 \<subseteq> K" "a = walk_weight es1" by auto
      from fw_invD(2)[OF inv k j] b obtain es2 where
        es2: "is_walk g k es2 j" "inner es2 \<subseteq> K" "b = walk_weight es2" by auto
      have "is_walk g i (es1 @ es2) j" using es1(1) es2(1) by (auto simp: is_walk_append)
      moreover have "inner (es1 @ es2) \<subseteq> insert k K"
        using inner_append[OF es2(1), of es1] es1(2) es2(2) by auto
      moreover have "?E i j = Fin (walk_weight (es1 @ es2))"
        unfolding Eij a b using es1(3) es2(3) by simp
      ultimately show ?thesis by blast
    qed
  qed
  fix es assume "is_walk g i es j" "inner es \<subseteq> insert k K"
  from via_lower_bound[OF inv k j i this] show "?E i j \<le> Fin (walk_weight es)"
    unfolding E .
qed

lemma init_neighbors_spec:
  assumes "full_on V m" "s \<in> V" "\<forall>d w. (d, w) \<in> set ns \<longrightarrow> d \<in> V"
  shows "\<exists>m'. init_neighbors s ns m = Inr m' \<and> full_on V m' \<and>
     (\<forall>a b. entry m' a b \<le> entry m a b) \<and>
     (\<forall>d w. (d, w) \<in> set ns \<longrightarrow> entry m' s d \<le> Fin w) \<and>
     (\<forall>a b. entry m' a b = entry m a b \<or>
            (a = s \<and> (\<exists>w. (b, w) \<in> set ns \<and> entry m' a b = Fin w)))"
  using assms(1,3)
proof (induction ns arbitrary: m)
  case Nil
  then show ?case by simp
next
  case (Cons e ns)
  obtain d w where e: "e = (d, w)" by (cases e)
  from Cons.prems(2) e have d: "d \<in> V" and rest: "\<forall>d w. (d, w) \<in> set ns \<longrightarrow> d \<in> V" by auto
  note get = mat_get_full[OF Cons.prems(1) assms(2) d]
  show ?case
  proof (cases "Fin w < entry m s d")
    case True
    from mat_set_full[OF Cons.prems(1) assms(2) d, of "Fin w"] obtain m1 where
      m1: "mat_set m s d (Fin w) = Inr m1" "full_on V m1"
        "entry m1 = (\<lambda>a b. if a = s \<and> b = d then Fin w else entry m a b)" by blast
    from Cons.IH[OF m1(2) rest] obtain m' where
      r: "init_neighbors s ns m1 = Inr m'" and f: "full_on V m'" and
      le: "\<And>a b. entry m' a b \<le> entry m1 a b" and
      ed: "\<And>d w. (d, w) \<in> set ns \<Longrightarrow> entry m' s d \<le> Fin w" and
      ch: "\<And>a b. entry m' a b = entry m1 a b \<or>
            (a = s \<and> (\<exists>w. (b, w) \<in> set ns \<and> entry m' a b = Fin w))" by blast
    have run: "init_neighbors s (e # ns) m = Inr m'" using e get True m1(1) r by simp
    have le1: "entry m1 a b \<le> entry m a b" for a b
      using True unfolding m1(3) by auto
    have le': "entry m' a b \<le> entry m a b" for a b
      using le[of a b] le1[of a b] by (rule order_trans)
    have ed': "entry m' s d' \<le> Fin w'" if "(d', w') \<in> set (e # ns)" for d' w'
    proof (cases "(d', w') = e")
      case True
      with e have "entry m1 s d' = Fin w'" unfolding m1(3) by simp
      with le[of s d'] show ?thesis by simp
    next
      case False
      with that have "(d', w') \<in> set ns" by auto
      then show ?thesis by (rule ed)
    qed
    have ch': "entry m' a b = entry m a b \<or>
            (a = s \<and> (\<exists>w. (b, w) \<in> set (e # ns) \<and> entry m' a b = Fin w))" for a b
    proof (rule disjE[OF ch[of a b]])
      assume eq: "entry m' a b = entry m1 a b"
      show ?thesis
      proof (cases "a = s \<and> b = d")
        case True
        with eq e show ?thesis unfolding m1(3) by auto
      next
        case False
        with eq show ?thesis unfolding m1(3) by auto
      qed
    next
      assume "a = s \<and> (\<exists>w. (b, w) \<in> set ns \<and> entry m' a b = Fin w)"
      then show ?thesis by auto
    qed
    from run f le' ed' ch' show ?thesis by blast
  next
    case False
    from Cons.IH[OF Cons.prems(1) rest] obtain m' where
      r: "init_neighbors s ns m = Inr m'" and f: "full_on V m'" and
      le: "\<And>a b. entry m' a b \<le> entry m a b" and
      ed: "\<And>d w. (d, w) \<in> set ns \<Longrightarrow> entry m' s d \<le> Fin w" and
      ch: "\<And>a b. entry m' a b = entry m a b \<or>
            (a = s \<and> (\<exists>w. (b, w) \<in> set ns \<and> entry m' a b = Fin w))" by blast
    have run: "init_neighbors s (e # ns) m = Inr m'" using e get False r by simp
    have ed': "entry m' s d' \<le> Fin w'" if "(d', w') \<in> set (e # ns)" for d' w'
    proof (cases "(d', w') = e")
      case True
      with e False have "entry m s d' \<le> Fin w'" by simp
      with le[of s d'] show ?thesis by (rule order_trans)
    next
      case False
      with that have "(d', w') \<in> set ns" by auto
      then show ?thesis by (rule ed)
    qed
    have ch': "entry m' a b = entry m a b \<or>
            (a = s \<and> (\<exists>w. (b, w) \<in> set (e # ns) \<and> entry m' a b = Fin w))" for a b
      using ch[of a b] by auto
    from run f le ed' ch' show ?thesis by blast
  qed
qed

lemma init_edges_spec:
  assumes "full_on V m"
    "\<forall>s ns. (s, ns) \<in> set adj \<longrightarrow> s \<in> V \<and> (\<forall>d w. (d, w) \<in> set ns \<longrightarrow> d \<in> V)"
  shows "\<exists>m'. init_edges adj m = Inr m' \<and> full_on V m' \<and>
     (\<forall>a b. entry m' a b \<le> entry m a b) \<and>
     (\<forall>s ns d w. (s, ns) \<in> set adj \<longrightarrow> (d, w) \<in> set ns \<longrightarrow> entry m' s d \<le> Fin w) \<and>
     (\<forall>a b. entry m' a b = entry m a b \<or>
            (\<exists>ns w. (a, ns) \<in> set adj \<and> (b, w) \<in> set ns \<and> entry m' a b = Fin w))"
  using assms
proof (induction adj arbitrary: m)
  case Nil
  then show ?case by simp
next
  case (Cons p adj)
  obtain s ns where p: "p = (s, ns)" by (cases p)
  from Cons.prems(2) p have s: "s \<in> V" and ns: "\<forall>d w. (d, w) \<in> set ns \<longrightarrow> d \<in> V"
    and rest: "\<forall>s ns. (s, ns) \<in> set adj \<longrightarrow> s \<in> V \<and> (\<forall>d w. (d, w) \<in> set ns \<longrightarrow> d \<in> V)"
    by auto
  from init_neighbors_spec[OF Cons.prems(1) s ns] obtain m1 where
    r1: "init_neighbors s ns m = Inr m1" and f1: "full_on V m1" and
    le1: "\<And>a b. entry m1 a b \<le> entry m a b" and
    ed1: "\<And>d w. (d, w) \<in> set ns \<Longrightarrow> entry m1 s d \<le> Fin w" and
    ch1: "\<And>a b. entry m1 a b = entry m a b \<or>
            (a = s \<and> (\<exists>w. (b, w) \<in> set ns \<and> entry m1 a b = Fin w))" by blast
  from Cons.IH[OF f1 rest] obtain m' where
    r: "init_edges adj m1 = Inr m'" and f: "full_on V m'" and
    le: "\<And>a b. entry m' a b \<le> entry m1 a b" and
    ed: "\<And>s ns d w. (s, ns) \<in> set adj \<Longrightarrow> (d, w) \<in> set ns \<Longrightarrow> entry m' s d \<le> Fin w" and
    ch: "\<And>a b. entry m' a b = entry m1 a b \<or>
            (\<exists>ns w. (a, ns) \<in> set adj \<and> (b, w) \<in> set ns \<and> entry m' a b = Fin w)" by blast
  have run: "init_edges (p # adj) m = Inr m'" using p r1 r by simp
  have le': "entry m' a b \<le> entry m a b" for a b
    using le[of a b] le1[of a b] by (rule order_trans)
  have ed': "entry m' s' d \<le> Fin w"
    if "(s', ns') \<in> set (p # adj)" "(d, w) \<in> set ns'" for s' ns' d w
  proof (cases "(s', ns') = p")
    case True
    with p that(2) have "entry m1 s' d \<le> Fin w" using ed1 by simp
    with le[of s' d] show ?thesis by (rule order_trans)
  next
    case False
    with that(1) have "(s', ns') \<in> set adj" by auto
    from ed[OF this that(2)] show ?thesis .
  qed
  have ch': "entry m' a b = entry m a b \<or>
            (\<exists>ns w. (a, ns) \<in> set (p # adj) \<and> (b, w) \<in> set ns \<and> entry m' a b = Fin w)" for a b
  proof (rule disjE[OF ch[of a b]])
    assume eq: "entry m' a b = entry m1 a b"
    from ch1[of a b] show ?thesis
    proof
      assume "entry m1 a b = entry m a b"
      with eq show ?thesis by simp
    next
      assume "a = s \<and> (\<exists>w. (b, w) \<in> set ns \<and> entry m1 a b = Fin w)"
      with eq p show ?thesis by auto
    qed
  next
    assume "\<exists>ns w. (a, ns) \<in> set adj \<and> (b, w) \<in> set ns \<and> entry m' a b = Fin w"
    then show ?thesis by auto
  qed
  from run f le' ed' ch' show ?case by blast
qed

lemma adjacency_has_edge:
  assumes "wf_graph g"
  shows "has_edge g u v w \<longleftrightarrow> (\<exists>ns. (u, ns) \<in> set (adjacency_list g) \<and> (v, w) \<in> set ns)"
proof -
  from assms have d: "distinct (map fst (adjacency_list g))" by (simp add: wf_graph_def)
  show ?thesis
  proof
    assume "has_edge g u v w"
    then obtain ns where "map_of (adjacency_list g) u = Some ns" "(v, w) \<in> set ns"
      by (rule has_edgeD)
    then show "\<exists>ns. (u, ns) \<in> set (adjacency_list g) \<and> (v, w) \<in> set ns"
      by (auto dest: map_of_SomeD)
  next
    assume "\<exists>ns. (u, ns) \<in> set (adjacency_list g) \<and> (v, w) \<in> set ns"
    then obtain ns where ns: "(u, ns) \<in> set (adjacency_list g)" "(v, w) \<in> set ns" by blast
    from map_of_is_SomeI[OF d ns(1)] ns(2) show "has_edge g u v w"
      by (simp add: has_edge_def)
  qed
qed

lemma walk_edges:
  "is_walk g u es v \<Longrightarrow> e \<in> set es \<Longrightarrow> has_edge g (fst e) (fst (snd e)) (snd (snd e))"
  by (induction es arbitrary: u) auto

lemma walk_inner_vertices:
  assumes "wf_graph g" "is_walk g u es v"
  shows "inner es \<subseteq> set (vertices g)"
proof
  fix x assume "x \<in> inner es"
  then obtain e where e: "e \<in> set (tl es)" "x = fst e" by (auto simp: inner_def)
  then have "e \<in> set es" by (cases es) auto
  from walk_edges[OF assms(2) this] has_edge_vertices(1)[OF assms(1)] e(2)
  show "x \<in> set (vertices g)" by blast
qed

lemma fw_inv_init:
  assumes wf: "wf_graph g" and nn: "nonneg_weights g"
  shows "\<exists>m0 m1. set_diagonal (vertices g) (init_matrix (vertices g)) = Inr m0 \<and>
           init_edges (adjacency_list g) m0 = Inr m1 \<and>
           full_on (set (vertices g)) m1 \<and> fw_inv g {} (entry m1)"
proof -
  let ?V = "set (vertices g)"
  from set_diagonal_full[OF init_matrix_full(1) subset_refl, of "vertices g"] obtain m0 where
    m0: "set_diagonal (vertices g) (init_matrix (vertices g)) = Inr m0" "full_on ?V m0"
    and e0': "entry m0 = (\<lambda>a b. if a = b \<and> a \<in> ?V then Fin 0
                                 else entry (init_matrix (vertices g)) a b)"
    by blast
  have e0: "entry m0 = (\<lambda>a b. if a = b \<and> a \<in> ?V then Fin 0 else Infty)"
    unfolding e0' init_matrix_full(2) ..
  have adjV: "\<forall>s ns. (s, ns) \<in> set (adjacency_list g) \<longrightarrow>
                s \<in> ?V \<and> (\<forall>d w. (d, w) \<in> set ns \<longrightarrow> d \<in> ?V)"
    using wf unfolding wf_graph_def by fast
  from init_edges_spec[OF m0(2) adjV] obtain m1 where
    r: "init_edges (adjacency_list g) m0 = Inr m1" and f: "full_on ?V m1" and
    le: "\<And>a b. entry m1 a b \<le> entry m0 a b" and
    ed: "\<And>s ns d w. (s, ns) \<in> set (adjacency_list g) \<Longrightarrow> (d, w) \<in> set ns \<Longrightarrow> entry m1 s d \<le> Fin w" and
    ch: "\<And>a b. entry m1 a b = entry m0 a b \<or>
            (\<exists>ns w. (a, ns) \<in> set (adjacency_list g) \<and> (b, w) \<in> set ns \<and> entry m1 a b = Fin w)"
    by blast
  have ch2: "entry m1 a b = entry m0 a b \<or> (\<exists>w. has_edge g a b w \<and> entry m1 a b = Fin w)" for a b
    using ch[of a b] adjacency_has_edge[OF wf] by blast
  have inv: "fw_inv g {} (entry m1)"
    unfolding fw_inv_def
  proof (intro ballI conjI allI impI)
    fix i j assume i: "i \<in> ?V" and j: "j \<in> ?V"
    show "Fin 0 \<le> entry m1 i j"
    proof (rule disjE[OF ch2[of i j]])
      assume "entry m1 i j = entry m0 i j"
      then show ?thesis unfolding e0 by simp
    next
      assume "\<exists>w. has_edge g i j w \<and> entry m1 i j = Fin w"
      then show ?thesis using has_edge_nonneg[OF nn] by auto
    qed
    show "entry m1 i j = Infty \<or>
       (\<exists>es. is_walk g i es j \<and> inner es \<subseteq> {} \<and> entry m1 i j = Fin (walk_weight es))"
    proof (rule disjE[OF ch2[of i j]])
      assume eq: "entry m1 i j = entry m0 i j"
      show ?thesis
      proof (cases "i = j")
        case True
        have "entry m1 i j = Fin 0" using eq i True unfolding e0 by simp
        with True have "is_walk g i [] j \<and> inner [] \<subseteq> {} \<and> entry m1 i j = Fin (walk_weight [])"
          by (simp add: inner_def)
        then show ?thesis by (intro disjI2 exI[of _ "[]"])
      next
        case False
        have "entry m1 i j = Infty" using eq False unfolding e0 by simp
        then show ?thesis by (rule disjI1)
      qed
    next
      assume "\<exists>w. has_edge g i j w \<and> entry m1 i j = Fin w"
      then obtain w where w: "has_edge g i j w" "entry m1 i j = Fin w" by blast
      then have "is_walk g i [(i, j, w)] j \<and> inner [(i, j, w)] \<subseteq> {} \<and>
         entry m1 i j = Fin (walk_weight [(i, j, w)])" by (simp add: inner_def)
      then show ?thesis by (intro disjI2 exI[of _ "[(i, j, w)]"])
    qed
    fix es assume walk: "is_walk g i es j" and inn: "inner es \<subseteq> {}"
    from inn have tl: "tl es = []" by (simp add: inner_def)
    show "entry m1 i j \<le> Fin (walk_weight es)"
    proof (cases es)
      case Nil
      with walk have "i = j" by simp
      with le[of i j] i Nil show ?thesis unfolding e0 by simp
    next
      case (Cons e r)
      with tl have es: "es = [e]" by simp
      obtain a b w where e: "e = (a, b, w)" by (cases e)
      with walk es have "has_edge g i j w" by auto
      then obtain ns where "(i, ns) \<in> set (adjacency_list g)" "(j, w) \<in> set ns"
        unfolding adjacency_has_edge[OF wf] by blast
      from ed[OF this] have "entry m1 i j \<le> Fin w" .
      with es e show ?thesis by simp
    qed
  qed
  from m0(1) r f inv show ?thesis by blast
qed

lemma fw_k_inv:
  assumes "full_on (set (vertices g)) m" "set ks \<subseteq> set (vertices g)" "fw_inv g K (entry m)"
  shows "\<exists>m'. fw_k (vertices g) ks m = Inr m' \<and> full_on (set (vertices g)) m' \<and>
           fw_inv g (K \<union> set ks) (entry m')"
  using assms
proof (induction ks arbitrary: m K)
  case Nil
  then show ?case by simp
next
  case (Cons k ks)
  then have k: "k \<in> set (vertices g)" and ks: "set ks \<subseteq> set (vertices g)" by auto
  from fw_round[OF Cons.prems(1) k fw_invD(1)[OF Cons.prems(3) k k]] obtain m1 where
    m1: "fw_i (vertices g) k (vertices g) m = Inr m1" "full_on (set (vertices g)) m1"
      "entry m1 = via k (entry m) (set (vertices g) \<times> set (vertices g))" by blast
  from fw_inv_step[OF Cons.prems(3) k] m1(3) have "fw_inv g (insert k K) (entry m1)" by simp
  from Cons.IH[OF m1(2) ks this] obtain m' where
    "fw_k (vertices g) ks m1 = Inr m'" "full_on (set (vertices g)) m'"
    "fw_inv g (insert k K \<union> set ks) (entry m')" by blast
  with m1(1) show ?case by simp
qed

lemma floyd_warshall_correct:
  assumes wf: "wf_graph g" and nn: "nonneg_weights g"
  shows "\<exists>m. floyd_warshall_precomputation g = Inr m \<and> full_on (set (vertices g)) m \<and>
           (\<forall>u\<in>set (vertices g). \<forall>v\<in>set (vertices g). is_shortest_distance g u v (entry m u v))"
proof -
  from fw_inv_init[OF wf nn] obtain m0 m1 where
    i0: "set_diagonal (vertices g) (init_matrix (vertices g)) = Inr m0"
    and i1: "init_edges (adjacency_list g) m0 = Inr m1"
    and f1: "full_on (set (vertices g)) m1" and inv1: "fw_inv g {} (entry m1)" by blast
  from fw_k_inv[OF f1 subset_refl inv1] obtain m where
    r: "fw_k (vertices g) (vertices g) m1 = Inr m" and f: "full_on (set (vertices g)) m"
    and inv: "fw_inv g (set (vertices g)) (entry m)" by auto
  have run: "floyd_warshall_precomputation g = Inr m"
    using i0 i1 r by (simp add: floyd_warshall_precomputation_def)
  have "is_shortest_distance g u v (entry m u v)"
    if u: "u \<in> set (vertices g)" and v: "v \<in> set (vertices g)" for u v
    unfolding is_shortest_distance_def
  proof (intro conjI allI impI)
    from fw_invD(2)[OF inv u v]
    show "entry m u v = Infty \<or> (\<exists>es. is_walk g u es v \<and> entry m u v = Fin (walk_weight es))"
      by blast
    fix es assume w: "is_walk g u es v"
    from fw_invD(3)[OF inv u v w walk_inner_vertices[OF wf w]]
    show "entry m u v \<le> Fin (walk_weight es)" .
  qed
  with run f show ?thesis by blast
qed


subsection \<open>The two strategies agree\<close>







subsection \<open>Graphs built by the loader\<close>

lemma set_add_set: "set (set_add vs x) = insert x (set vs)"
  by (auto simp: set_add_def)

lemma set_add_distinct: "distinct vs \<Longrightarrow> distinct (set_add vs x)"
  by (simp add: set_add_def)

lemma add_edge_wf:
  assumes "wf_graph g"
  shows "wf_graph (add_edge g source destination weight)"
proof -
  let ?adj0 = "if map_of (adjacency_list g) source = None
           then adjacency_list g @ [(source, [])] else adjacency_list g"
  let ?f = "\<lambda>(k, ns). if k = source then (k, ns @ [(destination, weight)]) else (k, ns)"
  let ?V = "insert destination (insert source (set (vertices g)))"
  have keys: "map fst (map ?f ?adj0) = map fst ?adj0"
    by (induction ?adj0) (auto split: prod.splits)
  have d0: "distinct (map fst ?adj0)"
    using assms by (auto simp: wf_graph_def map_of_eq_None_iff)
  have old: "s \<in> ?V \<and> (\<forall>(d, w)\<in>set ns. d \<in> ?V)" if "(s, ns) \<in> set ?adj0" for s ns
    using that assms unfolding wf_graph_def by (fastforce split: if_splits)
  have new: "s \<in> ?V \<and> (\<forall>(d, w)\<in>set ns. d \<in> ?V)" if "(s, ns) \<in> set (map ?f ?adj0)" for s ns
  proof -
    from that obtain p where p: "p \<in> set ?adj0" "(s, ns) = ?f p" by auto
    obtain k ms where km: "p = (k, ms)" by (cases p)
    with p old[of k ms] show ?thesis by (auto split: if_splits)
  qed
  let ?g = "add_edge g source destination weight"
  have adj: "adjacency_list ?g = map ?f ?adj0" by (simp add: add_edge_def)
  have vs: "set (vertices ?g) = ?V" by (auto simp: add_edge_def set_add_set)
  have dv: "distinct (vertices ?g)"
    using assms by (simp add: add_edge_def set_add_distinct wf_graph_def)
  show ?thesis
    unfolding wf_graph_def
  proof (intro conjI ballI)
    show "distinct (map fst (adjacency_list ?g))" unfolding adj keys by (rule d0)
    show "distinct (vertices ?g)" by (rule dv)
    fix x assume x: "x \<in> set (adjacency_list ?g)"
    obtain s ns where sn: "x = (s, ns)" by (cases x)
    with x have "(s, ns) \<in> set (map ?f ?adj0)" unfolding adj by simp
    from new[OF this] sn
    show "case x of (source, neighbors) \<Rightarrow> source \<in> set (vertices ?g) \<and>
            (\<forall>(destination, weight)\<in>set neighbors. destination \<in> set (vertices ?g))"
      unfolding vs by simp
  qed
qed

lemma add_edge_nonneg:
  assumes "nonneg_weights g" "0 \<le> weight"
  shows "nonneg_weights (add_edge g source destination weight)"
  using assms unfolding nonneg_weights_def add_edge_def
  by (fastforce split: if_splits)

lemma load_network_data_wf:
  "wf_graph (load_network_data rows)"
proof -
  have "wf_graph g \<Longrightarrow> wf_graph (fold (\<lambda>(source, destination, travel_time, traffic_delay) g.
             add_edge g source destination (travel_time + traffic_delay)) rows g)" for g :: "'a graph"
    by (induction rows arbitrary: g) (auto simp: add_edge_wf)
  moreover have "wf_graph (empty_graph :: 'a graph)" by (simp add: wf_graph_def empty_graph_def)
  ultimately show ?thesis unfolding load_network_data_def by blast
qed

lemma load_network_data_nonneg:
  assumes "\<forall>(source, destination, travel_time, traffic_delay)\<in>set rows.
             0 \<le> travel_time + traffic_delay"
  shows "nonneg_weights (load_network_data rows)"
proof -
  have "nonneg_weights g \<Longrightarrow>
        \<forall>(source, destination, travel_time, traffic_delay)\<in>set rows.
             0 \<le> travel_time + traffic_delay \<Longrightarrow>
        nonneg_weights (fold (\<lambda>(source, destination, travel_time, traffic_delay) g.
             add_edge g source destination (travel_time + traffic_delay)) rows g)" for g :: "'a graph"
    by (induction rows arbitrary: g) (auto simp: add_edge_nonneg)
  moreover have "nonneg_weights (empty_graph :: 'a graph)"
    by (simp add: nonneg_weights_def empty_graph_def)
  ultimately show ?thesis using assms unfolding load_network_data_def by blast
qed

subsection \<open>Lighter edges, shorter distances\<close>












subsection \<open>Runs that complete\<close>

text \<open>
  The dispatch loop reaches its end whenever every travel-time query returns: in
  prototype 1 on every well-formed graph with non-negative weights, in prototype 2 when,
  in addition, the locations of all vehicles and calls are vertices of the graph.
\<close>

lemma find_best_returns:
  assumes "\<forall>v\<in>set fleet. \<exists>d. query (snd v) loc = Some (Inr d)"
  shows "\<exists>b t. find_best query loc fleet acc = Some (Inr (b, t))"
  using assms
proof (induction fleet arbitrary: acc)
  case Nil
  then show ?case by (cases acc) simp
next
  case (Cons v fleet)
  obtain aid aloc where v: "v = (aid, aloc)" by (cases v)
  obtain b0 t0 where acc: "acc = (b0, t0)" by (cases acc)
  from Cons.prems v obtain d where d: "query aloc loc = Some (Inr d)" by auto
  from Cons.prems have rest: "\<forall>v\<in>set fleet. \<exists>d. query (snd v) loc = Some (Inr d)" by simp
  from Cons.IH[OF rest, of "(Some aid, d)"] Cons.IH[OF rest, of "(b0, t0)"] v acc d
  show ?case by simp
qed

lemma dispatch_call_returns:
  assumes "\<forall>v\<in>set (available_ambulances st).
             \<exists>d. query (snd v) (row_location (snd (snd item))) = Some (Inr d)"
  shows "\<exists>st'. dispatch_call query item st = Some (Inr st')"
proof -
  obtain p cid row where item: "item = (p, cid, row)" by (cases item)
  with assms find_best_returns[of "available_ambulances st" query "row_location row" "(None, Infty)"]
  obtain b t where "find_best query (row_location row) (available_ambulances st) (None, Infty)
      = Some (Inr (b, t))" by auto
  with item show ?thesis by (simp add: dispatch_call_def)
qed

lemma process_calls_returns:
  assumes "\<forall>v\<in>set (available_ambulances st). \<forall>item\<in>set (call_queue st).
             \<exists>d. query (snd v) (row_location (snd (snd item))) = Some (Inr d)"
  shows "\<exists>st'. process_calls query st = Some (Inr st')"
  using assms
proof (induction "length (call_queue st)" arbitrary: st)
  case 0
  then have "call_queue st = []" by simp
  from process_calls_empty[OF this] show ?case by blast
next
  case (Suc n)
  then obtain item q' where hp: "heappop call_key (call_queue st) = Some (item, q')"
    by (cases "call_queue st") auto
  note pop = heappop_Some[OF hp]
  let ?st0 = "st\<lparr>call_queue := q', dequeued := dequeued st @ [item]\<rparr>"
  have "\<forall>v\<in>set (available_ambulances ?st0).
             \<exists>d. query (snd v) (row_location (snd (snd item))) = Some (Inr d)"
    using Suc.prems pop(1) by simp
  from dispatch_call_returns[where st = ?st0 and query = query and item = item, OF this]
  obtain st1 where
    dc: "dispatch_call query item ?st0 = Some (Inr st1)" by blast
  note fr = dispatch_call_frame[OF dc]
  have sub: "set q' \<subseteq> set (call_queue st)" unfolding pop(3) by (rule set_remove1_subset)
  have len: "n = length (call_queue st1)"
    using Suc.hyps(2) pop(1,3) fr(1) by (simp add: length_remove1)
  have "\<forall>v\<in>set (available_ambulances st1). \<forall>item\<in>set (call_queue st1).
             \<exists>d. query (snd v) (row_location (snd (snd item))) = Some (Inr d)"
    using Suc.prems fr(1,2) sub by auto
  from Suc.hyps(1)[OF len this] obtain st' where "process_calls query st1 = Some (Inr st')" by blast
  with hp dc have "process_calls query st = Some (Inr st')"
    by (subst process_calls.simps) simp
  then show ?case by blast
qed

lemma run_simulation_p1_returns:
  assumes "wf_graph g" "nonneg_weights g"
  shows "\<exists>st. run_simulation_p1 g call_priorities fleet rows = Some (Inr st)"
  unfolding run_simulation_p1_def
  using dijkstra_correct[OF assms] by (intro process_calls_returns) blast

lemma run_simulation_p2_returns:
  assumes "wf_graph g" "nonneg_weights g"
    and "\<forall>v\<in>set fleet. snd v \<in> set (vertices g)"
    and "\<forall>row\<in>set rows. row_location row \<in> set (vertices g)"
  shows "\<exists>st. run_simulation_p2 g call_priorities fleet rows = Some (Inr st)"
proof -
  from floyd_warshall_correct[OF assms(1,2)] obtain m where
    m: "floyd_warshall_precomputation g = Inr m" "full_on (set (vertices g)) m" by blast
  let ?q = "\<lambda>a c. Some (mat_get m a c)"
  let ?st = "initial_state (prepare_call_queue call_priorities rows) fleet"
  have "\<forall>v\<in>set (available_ambulances ?st). \<forall>item\<in>set (call_queue ?st).
             \<exists>d. ?q (snd v) (row_location (snd (snd item))) = Some (Inr d)"
  proof (intro ballI)
    fix v item assume v: "v \<in> set (available_ambulances ?st)" and i: "item \<in> set (call_queue ?st)"
    from v assms(3) have a: "snd v \<in> set (vertices g)" by (simp add: initial_state_simps)
    from i obtain row where "row \<in> set rows" "item = call_item_of call_priorities row"
      by (auto simp: initial_state_simps prepare_call_queue_map)
    with assms(4) have "row_location (snd (snd item)) \<in> set (vertices g)"
      by (simp add: call_item_of_def)
    from mat_get_full[OF m(2) a this]
    show "\<exists>d. ?q (snd v) (row_location (snd (snd item))) = Some (Inr d)" by simp
  qed
  from process_calls_returns[OF this] m(1) show ?thesis
    by (simp add: run_simulation_p2_def)
qed

text \<open>
  When no vehicle id is the empty string, the scan selects a vehicle exactly when some
  vehicle has a finite travel time to the call.
\<close>

lemma named_fleet_dispatch_iff:
  assumes "find_best query loc fleet (None, Infty) = Some (Inr (b, t))"
    and "\<forall>v\<in>set fleet. fst v \<noteq> []"
  shows "truthy b \<longleftrightarrow> (\<exists>v\<in>set fleet. \<exists>d. query (snd v) loc = Some (Inr d) \<and> d < Infty)"
proof (cases b)
  case None
  from find_best_None(2)[OF assms(1)[unfolded None]] None show ?thesis by auto
next
  case (Some aid)
  from find_best_Some[OF assms(1)[unfolded Some]] obtain i where
    i: "i < length fleet" "fst (fleet ! i) = aid" "query (snd (fleet ! i)) loc = Some (Inr t)"
    and t: "t < Infty"
    unfolding first_minimal_def by blast
  from i(1) have mem: "fleet ! i \<in> set fleet" by simp
  with assms(2) i(2) have "aid \<noteq> []" by auto
  moreover from mem i(3) t
  have "\<exists>v\<in>set fleet. \<exists>d. query (snd v) loc = Some (Inr d) \<and> d < Infty" by blast
  ultimately show ?thesis using Some by simp
qed

subsection \<open>Distance from a vertex to itself\<close>

text \<open>
  Claim C7. For every vertex \<open>v\<close>, \<open>dijkstra_shortest_path(graph, v, v)\<close> returns 0:
  the first item popped is \<open>(0, v)\<close>, it is not stale, and \<open>v\<close> is the target. This holds
  for every graph and every token \<open>v\<close>, whatever the weights of the self-loops at \<open>v\<close>.
\<close>

theorem dijkstra_self_distance:
  "dijkstra_shortest_path g v v = Some (Inr (Fin 0))"
  by (simp add: dijkstra_shortest_path_def dijkstra_loop.simps)

end
